theory Spec2Isabelle
  imports Main "HOL-Library.Monad_Syntax" "HOL-Library.Multiset"
begin

unbundle bit_operations_syntax

section \<open>The buddy allocator of \<^verbatim>\<open>buddy_system.py\<close>\<close>

text \<open>
  The class \<^verbatim>\<open>BuddySystem\<close> keeps three fields: the capacity, the dictionary
  \<^verbatim>\<open>memory\<close> from a block size to the list of free blocks of that size, and the
  dictionary \<^verbatim>\<open>allocated\<close> from a start address to the pair (requested size, block
  size). A block is the tuple (start, end). Python's integers are unbounded, so every
  number is an \<^typ>\<open>int\<close>.
\<close>

type_synonym block = "int \<times> int"

record buddy_system =
  total_memory :: int
  memory :: "int \<rightharpoonup> block list"
  allocated :: "int \<rightharpoonup> int \<times> int"

text \<open>\<^verbatim>\<open>__init__\<close>: one free block covering the whole range, nothing allocated.\<close>

definition BuddySystem :: "int \<Rightarrow> buddy_system" where
  "BuddySystem tm = \<lparr>total_memory = tm, memory = [tm \<mapsto> [(0, tm)]], allocated = Map.empty\<rparr>"

text \<open>
  \<^verbatim>\<open>self.memory.get(size, [])\<close>; also the value of \<^verbatim>\<open>self.memory[size]\<close> where the key
  is known to be present.
\<close>

definition free_list :: "(int \<rightharpoonup> block list) \<Rightarrow> int \<Rightarrow> block list" where
  "free_list m k = (case m k of None \<Rightarrow> [] | Some l \<Rightarrow> l)"

text \<open>
  \<^verbatim>\<open>self.memory.setdefault(k, []).append(b)\<close>; on a key that is present it is
  \<^verbatim>\<open>self.memory[k].append(b)\<close>.
\<close>

definition setdefault_append :: "(int \<rightharpoonup> block list) \<Rightarrow> int \<Rightarrow> block \<Rightarrow> (int \<rightharpoonup> block list)" where
  "setdefault_append m k b = m(k \<mapsto> free_list m k @ [b])"

subsection \<open>Rounding a request up\<close>

text \<open>
  \<^verbatim>\<open>_find_nearest_power_of_two\<close>: the loop \<^verbatim>\<open>while power < size: power *= 2\<close>, started
  at 1. The loop is a recursive function of the loop variable; a run that never leaves the
  loop is the value \<open>None\<close>.
\<close>

partial_function (option) power_loop :: "int \<Rightarrow> int \<Rightarrow> int option" where
  "power_loop pw sz = (if pw < sz then power_loop (pw * 2) sz else Some pw)"

definition find_nearest_power_of_two :: "int \<Rightarrow> int option" where
  "find_nearest_power_of_two sz = power_loop 1 sz"

subsection \<open>Splitting\<close>

text \<open>
  \<^verbatim>\<open>_split_block\<close>: the loop variable \<^verbatim>\<open>larger_size\<close> starts at twice the wanted size
  and doubles until a non-empty list is found or the capacity is passed. The first block
  of that list is popped and its two halves are appended, lower half first, to the list
  of \<^verbatim>\<open>larger_size // 2\<close>.
\<close>

partial_function (option) split_loop :: "int \<Rightarrow> buddy_system \<Rightarrow> (bool \<times> buddy_system) option" where
  "split_loop larger_size s =
     (if larger_size \<le> total_memory s then
        (case free_list (memory s) larger_size of
           blk # rest \<Rightarrow>
             (let mid = (fst blk + snd blk) div 2;
                  smaller_size = larger_size div 2;
                  m1 = (memory s)(larger_size \<mapsto> rest);
                  m2 = setdefault_append m1 smaller_size (fst blk, mid);
                  m3 = setdefault_append m2 smaller_size (mid, snd blk)
              in Some (True, s\<lparr>memory := m3\<rparr>))
         | [] \<Rightarrow> split_loop (larger_size * 2) s)
      else Some (False, s))"

definition split_block :: "int \<Rightarrow> buddy_system \<Rightarrow> (bool \<times> buddy_system) option" where
  "split_block sz s = split_loop (sz * 2) s"

subsection \<open>Allocation\<close>

text \<open>
  \<^verbatim>\<open>allocate\<close>: the result is the popped block, or \<open>None\<close> for Python's \<^verbatim>\<open>None\<close>,
  together with the state the call leaves.
\<close>

partial_function (option) allocate_loop ::
    "int \<Rightarrow> int \<Rightarrow> buddy_system \<Rightarrow> (block option \<times> buddy_system) option" where
  "allocate_loop sz block_size s =
     (if block_size \<le> total_memory s then
        (case free_list (memory s) block_size of
           blk # rest \<Rightarrow>
             Some (Some blk,
                   s\<lparr>memory := (memory s)(block_size \<mapsto> rest),
                     allocated := (allocated s)(fst blk \<mapsto> (sz, block_size))\<rparr>)
         | [] \<Rightarrow>
             split_block block_size s \<bind>
               (\<lambda>(ok, s'). if ok then allocate_loop sz block_size s' else Some (None, s')))
      else Some (None, s))"

definition allocate :: "int \<Rightarrow> buddy_system \<Rightarrow> (block option \<times> buddy_system) option" where
  "allocate sz s = find_nearest_power_of_two sz \<bind> (\<lambda>block_size. allocate_loop sz block_size s)"

subsection \<open>Release and coalescing\<close>

text \<open>
  \<^verbatim>\<open>list.remove\<close> raises \<^verbatim>\<open>ValueError\<close> when the element is absent; the first
  \<^verbatim>\<open>remove\<close> of \<^verbatim>\<open>_merge_buddies\<close> is guarded by the membership test, the second
  is not. \<open>NotAllocated\<close> is the refusal of the caller \<^verbatim>\<open>deallocate_block\<close>.
\<close>

datatype error = ValueError | NotAllocated

partial_function (option) merge_buddies ::
    "int \<Rightarrow> block \<Rightarrow> buddy_system \<Rightarrow> (error option \<times> buddy_system) option" where
  "merge_buddies sz blk s =
     (let buddy_address = fst blk XOR sz;
          buddy = (buddy_address, buddy_address + sz)
      in if buddy \<in> set (free_list (memory s) sz) then
           (let l1 = remove1 buddy (free_list (memory s) sz);
                s1 = s\<lparr>memory := (memory s)(sz \<mapsto> l1)\<rparr>
            in if blk \<in> set l1 then
                 (let l2 = remove1 blk l1;
                      merged_block = (min (fst blk) (fst buddy), max (snd blk) (snd buddy));
                      m2 = (memory s)(sz \<mapsto> l2);
                      s2 = s\<lparr>memory := setdefault_append m2 (sz * 2) merged_block\<rparr>
                  in merge_buddies (sz * 2) merged_block s2)
               else Some (Some ValueError, s1))
         else Some (None, s))"

definition deallocate :: "block \<Rightarrow> buddy_system \<Rightarrow> (error option \<times> buddy_system) option" where
  "deallocate blk s =
     (let sz = snd blk - fst blk;
          s1 = s\<lparr>memory := setdefault_append (memory s) sz blk\<rparr>;
          s2 = (if fst blk \<in> dom (allocated s1)
                then s1\<lparr>allocated := (allocated s1)(fst blk := None)\<rparr> else s1)
      in merge_buddies sz blk s2)"

text \<open>
  \<^verbatim>\<open>BuddySystemGUI.deallocate_block\<close>, the only caller of \<^verbatim>\<open>deallocate\<close>, without
  its widgets: the address is looked up, the block is rebuilt from the recorded block
  size, and an address that is not allocated is refused with the state untouched.
\<close>

definition deallocate_block :: "int \<Rightarrow> buddy_system \<Rightarrow> (error option \<times> buddy_system) option" where
  "deallocate_block address s =
     (case allocated s address of
        Some (requested, sz) \<Rightarrow> deallocate (address, address + sz) s
      | None \<Rightarrow> Some (Some NotAllocated, s))"

subsection \<open>Pre-seeding the size classes\<close>

text \<open>
  \<^verbatim>\<open>int.bit_length\<close> of Python, on the absolute value, and
  \<^verbatim>\<open>_ensure_memory_keys\<close>: every power of two \<open>2 ^ i\<close> with \<open>i\<close> below the bit length
  of the capacity gets an empty list unless it is a key already.
\<close>

fun bit_length :: "nat \<Rightarrow> nat" where
  "bit_length n = (if n = 0 then 0 else Suc (bit_length (n div 2)))"

declare bit_length.simps [simp del]

definition ensure_memory_keys :: "buddy_system \<Rightarrow> buddy_system" where
  "ensure_memory_keys s =
     s\<lparr>memory := fold (\<lambda>sz m. if sz \<in> dom m then m else m(sz \<mapsto> []))
                     (map (\<lambda>i. 2 ^ i) [0..<bit_length (nat \<bar>total_memory s\<bar>)]) (memory s)\<rparr>"

subsection \<open>Sequences of requests\<close>

text \<open>
  The main program builds the allocator, calls \<^verbatim>\<open>_ensure_memory_keys\<close> and hands the
  object to the two handlers \<^verbatim>\<open>allocate_block\<close> and \<^verbatim>\<open>deallocate_block\<close>, the only
  callers of \<^verbatim>\<open>allocate\<close> and \<^verbatim>\<open>deallocate\<close>. A session is a list of such calls, run
  from left to right on the state. A step that never returns makes the run \<open>None\<close>.
\<close>

datatype request = Allocate int | Deallocate int | EnsureMemoryKeys

fun step :: "request \<Rightarrow> buddy_system \<Rightarrow> buddy_system option" where
  "step (Allocate n) s = map_option snd (allocate n s)"
| "step (Deallocate a) s = map_option snd (deallocate_block a s)"
| "step EnsureMemoryKeys s = Some (ensure_memory_keys s)"

fun run :: "request list \<Rightarrow> buddy_system \<Rightarrow> buddy_system option" where
  "run [] s = Some s"
| "run (q # qs) s = step q s \<bind> run qs"

text \<open>
  A client of the class itself: allocate a list of sizes, keeping the results, then hand
  blocks back to \<^verbatim>\<open>deallocate\<close> in some order.
\<close>

fun allocate_all :: "int list \<Rightarrow> buddy_system \<Rightarrow> (block option list \<times> buddy_system) option" where
  "allocate_all [] s = Some ([], s)"
| "allocate_all (n # ns) s =
     allocate n s \<bind> (\<lambda>(r, s'). allocate_all ns s' \<bind> (\<lambda>(rs, s''). Some (r # rs, s'')))"

fun deallocate_all :: "block list \<Rightarrow> buddy_system \<Rightarrow> (error option list \<times> buddy_system) option" where
  "deallocate_all [] s = Some ([], s)"
| "deallocate_all (b # bs) s =
     deallocate b s \<bind> (\<lambda>(e, s'). deallocate_all bs s' \<bind> (\<lambda>(es, s''). Some (e # es, s'')))"

section \<open>Notions for stating what the operations do\<close>

text \<open>
  The effect of the body of \<^verbatim>\<open>_split_block\<close> on the donor class \<open>d\<close> (pop the first
  block, append its halves to the class below), the effect of the granting branch of
  \<^verbatim>\<open>allocate\<close>, and \<open>j\<close> splits in a row, from the class \<open>block_size * 2 ^ j\<close> down to
  \<open>block_size\<close>. \<open>donor_at s block_size j\<close> says that the first non-empty class among
  \<open>block_size, 2 * block_size, 4 * block_size, \<dots>\<close> within the capacity is the \<open>j\<close>-th.
\<close>

definition split_at :: "int \<Rightarrow> buddy_system \<Rightarrow> buddy_system" where
  "split_at d s =
     (case free_list (memory s) d of
        blk # rest \<Rightarrow>
          (let mid = (fst blk + snd blk) div 2
           in s\<lparr>memory := (memory s)(d \<mapsto> rest,
                  d div 2 \<mapsto> free_list ((memory s)(d \<mapsto> rest)) (d div 2) @ [(fst blk, mid), (mid, snd blk)])\<rparr>)
      | [] \<Rightarrow> s)"

definition grant :: "int \<Rightarrow> int \<Rightarrow> buddy_system \<Rightarrow> buddy_system" where
  "grant sz block_size s =
     (case free_list (memory s) block_size of
        blk # rest \<Rightarrow> s\<lparr>memory := (memory s)(block_size \<mapsto> rest),
                        allocated := (allocated s)(fst blk \<mapsto> (sz, block_size))\<rparr>
      | [] \<Rightarrow> s)"

fun split_chain :: "int \<Rightarrow> nat \<Rightarrow> buddy_system \<Rightarrow> buddy_system" where
  "split_chain block_size 0 s = s"
| "split_chain block_size (Suc j) s = split_chain block_size j (split_at (block_size * 2 ^ Suc j) s)"

definition donor_at :: "buddy_system \<Rightarrow> int \<Rightarrow> nat \<Rightarrow> bool" where
  "donor_at s block_size j =
     (block_size * 2 ^ j \<le> total_memory s \<and> free_list (memory s) (block_size * 2 ^ j) \<noteq> [] \<and>
      (\<forall>i<j. free_list (memory s) (block_size * 2 ^ i) = []))"

definition no_donor :: "buddy_system \<Rightarrow> int \<Rightarrow> bool" where
  "no_donor s block_size =
     (\<forall>j. block_size * 2 ^ j \<le> total_memory s \<longrightarrow> free_list (memory s) (block_size * 2 ^ j) = [])"

text \<open>
  \<open>k\<close> calls of \<^verbatim>\<open>_split_block\<close> in a row for the same wanted size, every one of them
  successful: what the loop of \<^verbatim>\<open>allocate\<close> does as long as the wanted class stays empty.
\<close>

fun split_block_times :: "nat \<Rightarrow> int \<Rightarrow> buddy_system \<Rightarrow> buddy_system option" where
  "split_block_times 0 block_size s = Some s"
| "split_block_times (Suc k) block_size s =
     split_block block_size s \<bind>
       (\<lambda>(ok, s'). if ok then split_block_times k block_size s' else None)"


subsection \<open>The tables as sets of blocks\<close>

text \<open>
  A block covers the addresses from its start up to, not including, its end. A set of
  blocks partitions the range when every address of the range is covered by exactly one of
  them. \<open>free_blocks\<close> collects the blocks of all free lists, \<open>allocated_blocks\<close> the blocks
  recorded in \<^verbatim>\<open>allocated\<close>. \<open>aligned tm sz a\<close>: the size is a power of two, the
  start is a multiple of it, and the block lies in the range.
\<close>

definition covers :: "block \<Rightarrow> int \<Rightarrow> bool" where
  "covers blk x \<longleftrightarrow> fst blk \<le> x \<and> x < snd blk"

definition partitions :: "block set \<Rightarrow> int \<Rightarrow> bool" where
  "partitions B tm \<longleftrightarrow> (\<forall>x. 0 \<le> x \<and> x < tm \<longrightarrow> (\<exists>!blk. blk \<in> B \<and> covers blk x))"

definition free_blocks :: "buddy_system \<Rightarrow> block set" where
  "free_blocks s = (\<Union>k. set (free_list (memory s) k))"

definition allocated_blocks :: "buddy_system \<Rightarrow> block set" where
  "allocated_blocks s = {(a, a + sz) | a sz r. allocated s a = Some (r, sz)}"

definition aligned :: "int \<Rightarrow> int \<Rightarrow> int \<Rightarrow> bool" where
  "aligned tm sz a \<longleftrightarrow> (\<exists>j. sz = 2 ^ j) \<and> sz dvd a \<and> 0 \<le> a \<and> a + sz \<le> tm"

text \<open>
  The invariant of the allocator: every free block stands in the list of its own size and
  is aligned, no list holds a block twice, every allocated block is aligned, no block is
  both free and allocated, and the blocks of both tables partition the range.
\<close>

definition well_formed :: "buddy_system \<Rightarrow> bool" where
  "well_formed s \<longleftrightarrow>
     (\<forall>k blk. blk \<in> set (free_list (memory s) k) \<longrightarrow>
        snd blk = fst blk + k \<and> aligned (total_memory s) k (fst blk)) \<and>
     (\<forall>k. distinct (free_list (memory s) k)) \<and>
     (\<forall>a r sz. allocated s a = Some (r, sz) \<longrightarrow> aligned (total_memory s) sz a) \<and>
     free_blocks s \<inter> allocated_blocks s = {} \<and>
     partitions (free_blocks s \<union> allocated_blocks s) (total_memory s)"

text \<open>
  The buddy of a block, as \<^verbatim>\<open>_merge_buddies\<close> computes it. A state is coalesced when no
  free block has a free buddy; \<open>only_pair s h\<close> allows the one pair of \<open>h\<close> and its buddy,
  which is the situation inside an operation.
\<close>

definition buddy_of :: "block \<Rightarrow> block" where
  "buddy_of blk = ((fst blk XOR (snd blk - fst blk)), (fst blk XOR (snd blk - fst blk)) + (snd blk - fst blk))"

definition paired :: "buddy_system \<Rightarrow> block \<Rightarrow> bool" where
  "paired s blk \<longleftrightarrow> blk \<in> free_blocks s \<and> buddy_of blk \<in> free_blocks s"

definition only_pair :: "buddy_system \<Rightarrow> block \<Rightarrow> bool" where
  "only_pair s h \<longleftrightarrow> (\<forall>blk. paired s blk \<longrightarrow> blk = h \<or> blk = buddy_of h)"

definition coalesced :: "buddy_system \<Rightarrow> bool" where
  "coalesced s \<longleftrightarrow> (\<forall>blk. \<not> paired s blk)"

text \<open>
  The first three statements of \<^verbatim>\<open>deallocate\<close> for an allocated block, and one round
  of \<^verbatim>\<open>_merge_buddies\<close> that finds the buddy.
\<close>

definition release :: "block \<Rightarrow> buddy_system \<Rightarrow> buddy_system" where
  "release blk s =
     s\<lparr>memory := setdefault_append (memory s) (snd blk - fst blk) blk,
       allocated := (allocated s)(fst blk := None)\<rparr>"

definition merged_block :: "block \<Rightarrow> block" where
  "merged_block blk = (min (fst blk) (fst (buddy_of blk)), max (snd blk) (snd (buddy_of blk)))"

definition merge_at :: "int \<Rightarrow> block \<Rightarrow> buddy_system \<Rightarrow> buddy_system" where
  "merge_at sz blk s =
     s\<lparr>memory := setdefault_append
         ((memory s)(sz \<mapsto> remove1 blk (remove1 (buddy_of blk) (free_list (memory s) sz))))
         (sz * 2) (merged_block blk)\<rparr>"

section \<open>Rounding\<close>

lemma power_loop_pow2:
  "0 < pw \<Longrightarrow> \<exists>j. power_loop pw sz = Some (pw * 2 ^ j) \<and> sz \<le> pw * 2 ^ j \<and>
      (j = 0 \<or> pw * 2 ^ j < 2 * sz)"
proof (induction "nat (sz - pw)" arbitrary: pw rule: less_induct)
  case less
  show ?case
  proof (cases "pw < sz")
    case False
    then have "power_loop pw sz = Some (pw * 2 ^ 0)"
      by (subst power_loop.simps) simp
    with False show ?thesis by (intro exI[of _ 0]) simp
  next
    case True
    with less.prems have "nat (sz - pw * 2) < nat (sz - pw)" and "0 < pw * 2" by auto
    from less.hyps[OF this] obtain j where
      j: "power_loop (pw * 2) sz = Some (pw * 2 * 2 ^ j)" "sz \<le> pw * 2 * 2 ^ j"
         "j = 0 \<or> pw * 2 * 2 ^ j < 2 * sz"
      by blast
    from True have "power_loop pw sz = power_loop (pw * 2) sz"
      by (subst power_loop.simps) simp
    with j True show ?thesis
      by (intro exI[of _ "Suc j"]) (auto simp: mult.assoc)
  qed
qed

text \<open>
  C6. For every request \<open>n \<ge> 1\<close> the rounding returns a power of two \<open>p\<close> with
  \<open>n \<le> p\<close> and half of \<open>p\<close> below \<open>n\<close> (as a fraction, \<open>p < 2 n\<close>, and as the integer
  quotient); no smaller power of two is at least \<open>n\<close>.
\<close>

theorem find_nearest_power_of_two_correct:
  "1 \<le> n \<Longrightarrow> \<exists>j. find_nearest_power_of_two n = Some (2 ^ j) \<and> n \<le> 2 ^ j \<and>
     2 ^ j < 2 * n \<and> (2 ^ j) div 2 < n \<and> (\<forall>i. n \<le> 2 ^ i \<longrightarrow> (2::int) ^ j \<le> 2 ^ i)"
proof -
  assume n: "1 \<le> n"
  from power_loop_pow2[of 1 n] obtain j where
    j: "power_loop 1 n = Some (2 ^ j)" "n \<le> 2 ^ j" "j = 0 \<or> 2 ^ j < 2 * n"
    by auto
  from j(3) n have lt: "(2::int) ^ j < 2 * n" by auto
  have least: "(2::int) ^ j \<le> 2 ^ i" if "n \<le> 2 ^ i" for i
  proof (rule ccontr)
    assume "\<not> (2::int) ^ j \<le> 2 ^ i"
    then have "i < j" by (simp add: not_le)
    then have "Suc i \<le> j" by simp
    then have "(2::int) ^ Suc i \<le> 2 ^ j" by (rule power_increasing) simp
    with that lt show False by simp
  qed
  from lt have "((2::int) ^ j) div 2 < n" by simp
  with j lt least show ?thesis
    unfolding find_nearest_power_of_two_def by blast
qed

theorem find_nearest_power_of_two_correct_witness:
  "(1::int) \<le> 100 \<and> find_nearest_power_of_two 100 = Some 128"
proof -
  have h: "(1::int) \<le> 100" by simp
  from find_nearest_power_of_two_correct[OF h] obtain j where
    j: "find_nearest_power_of_two 100 = Some (2 ^ j)" "(100::int) \<le> 2 ^ j" "(2::int) ^ j < 2 * 100"
    by blast
  have "j = 7"
  proof (rule ccontr)
    assume "j \<noteq> 7"
    then consider "j \<le> 6" | "8 \<le> j" by linarith
    then show False
    proof cases
      case 1
      then have "(2::int) ^ j \<le> 2 ^ 6" by (intro power_increasing) simp_all
      with j(2) show False by simp
    next
      case 2
      then have "(2::int) ^ 8 \<le> 2 ^ j" by (intro power_increasing) simp_all
      with j(3) show False by simp
    qed
  qed
  with j(1) h show ?thesis by simp
qed

section \<open>Splitting and the allocation loop\<close>

lemma free_list_upd [simp]: "free_list (m(k \<mapsto> l)) k' = (if k' = k then l else free_list m k')"
  by (simp add: free_list_def)

lemma split_loop_found:
  "d \<le> total_memory s \<Longrightarrow> free_list (memory s) d \<noteq> [] \<Longrightarrow> split_loop d s = Some (True, split_at d s)"
  by (subst split_loop.simps)
     (auto simp: split_at_def setdefault_append_def Let_def split: list.splits)

lemma split_loop_next:
  "d \<le> total_memory s \<Longrightarrow> free_list (memory s) d = [] \<Longrightarrow> split_loop d s = split_loop (d * 2) s"
  by (subst split_loop.simps) simp

lemma split_loop_stop:
  "\<not> d \<le> total_memory s \<Longrightarrow> split_loop d s = Some (False, s)"
  by (subst split_loop.simps) simp

lemma split_loop_donor:
  "0 < d \<Longrightarrow> donor_at s d j \<Longrightarrow> split_loop d s = Some (True, split_at (d * 2 ^ j) s)"
proof (induction j arbitrary: d)
  case 0
  then show ?case by (simp add: donor_at_def split_loop_found)
next
  case (Suc j)
  from Suc.prems have le: "d * 2 ^ Suc j \<le> total_memory s"
    and ne: "free_list (memory s) (d * 2 ^ Suc j) \<noteq> []"
    and em: "\<forall>i<Suc j. free_list (memory s) (d * 2 ^ i) = []"
    by (simp_all add: donor_at_def)
  from em have e0: "free_list (memory s) d = []" by (metis mult.right_neutral power_0 zero_less_Suc)
  have "(1::int) \<le> 2 ^ Suc j" by (rule one_le_power) simp
  then have "d * 1 \<le> d * 2 ^ Suc j" using Suc.prems(1) by (intro mult_left_mono) simp_all
  with le have dle: "d \<le> total_memory s" by simp
  have "donor_at s (d * 2) j"
    unfolding donor_at_def
  proof (intro conjI allI impI)
    show "d * 2 * 2 ^ j \<le> total_memory s" using le by (simp add: mult.assoc)
    show "free_list (memory s) (d * 2 * 2 ^ j) \<noteq> []" using ne by (simp add: mult.assoc)
    fix i assume "i < j"
    then have "Suc i < Suc j" by simp
    with em have "free_list (memory s) (d * 2 ^ Suc i) = []" by blast
    then show "free_list (memory s) (d * 2 * 2 ^ i) = []" by (simp add: mult.assoc)
  qed
  with Suc.IH[of "d * 2"] Suc.prems(1)
  have "split_loop (d * 2) s = Some (True, split_at (d * 2 * 2 ^ j) s)" by simp
  then show ?case using split_loop_next[OF dle e0] by (simp add: mult.assoc)
qed

lemma split_loop_no_donor:
  "0 < d \<Longrightarrow> no_donor s d \<Longrightarrow> split_loop d s = Some (False, s)"
proof (induction "nat (total_memory s - d + 1)" arbitrary: d rule: less_induct)
  case less
  show ?case
  proof (cases "d \<le> total_memory s")
    case False
    then show ?thesis by (rule split_loop_stop)
  next
    case True
    from less.prems(2) True have e0: "free_list (memory s) d = []"
      unfolding no_donor_def by (metis mult.right_neutral power_0)
    have nd: "no_donor s (d * 2)"
      unfolding no_donor_def
    proof (intro allI impI)
      fix j assume "d * 2 * 2 ^ j \<le> total_memory s"
      then have "d * 2 ^ Suc j \<le> total_memory s" by (simp add: mult.assoc)
      with less.prems(2) have "free_list (memory s) (d * 2 ^ Suc j) = []"
        unfolding no_donor_def by blast
      then show "free_list (memory s) (d * 2 * 2 ^ j) = []" by (simp add: mult.assoc)
    qed
    from True less.prems(1) have "nat (total_memory s - d * 2 + 1) < nat (total_memory s - d + 1)"
      by auto
    from less.hyps[OF this _ nd] less.prems(1)
    have "split_loop (d * 2) s = Some (False, s)" by simp
    with split_loop_next[OF True e0] show ?thesis by simp
  qed
qed

lemma donor_dichotomy: "0 < d \<Longrightarrow> no_donor s d \<or> (\<exists>j. donor_at s d j)"
proof (cases "no_donor s d")
  case True
  then show ?thesis by simp
next
  case False
  assume "0 < d"
  let ?P = "\<lambda>j. d * 2 ^ j \<le> total_memory s \<and> free_list (memory s) (d * 2 ^ j) \<noteq> []"
  from False have "\<exists>j. ?P j" unfolding no_donor_def by blast
  then obtain j where j: "?P j" "\<forall>i<j. \<not> ?P i"
    using exists_least_iff[of ?P] by blast
  have "donor_at s d j"
    unfolding donor_at_def
  proof (intro conjI allI impI)
    fix i assume ij: "i < j"
    then have "(2::int) ^ i \<le> 2 ^ j" by (intro power_increasing) simp_all
    then have "d * 2 ^ i \<le> d * 2 ^ j" using \<open>0 < d\<close> by (intro mult_left_mono) simp_all
    with j(1) have "d * 2 ^ i \<le> total_memory s" by simp
    with j(2) ij show "free_list (memory s) (d * 2 ^ i) = []" by blast
  qed (use j(1) in simp_all)
  then show ?thesis by blast
qed


lemma donor_at_Suc:
  assumes "0 < d" "donor_at s d (Suc j)"
  shows "d \<le> total_memory s" "free_list (memory s) d = []" "donor_at s (d * 2) j"
proof -
  from assms(2) have le: "d * 2 ^ Suc j \<le> total_memory s"
    and ne: "free_list (memory s) (d * 2 ^ Suc j) \<noteq> []"
    and em: "\<forall>i<Suc j. free_list (memory s) (d * 2 ^ i) = []"
    by (simp_all add: donor_at_def)
  from em show "free_list (memory s) d = []" by (metis mult.right_neutral power_0 zero_less_Suc)
  have "(1::int) \<le> 2 ^ Suc j" by (rule one_le_power) simp
  then have "d * 1 \<le> d * 2 ^ Suc j" using assms(1) by (intro mult_left_mono) simp_all
  with le show "d \<le> total_memory s" by simp
  show "donor_at s (d * 2) j"
    unfolding donor_at_def
  proof (intro conjI allI impI)
    show "d * 2 * 2 ^ j \<le> total_memory s" using le by (simp add: mult.assoc)
    show "free_list (memory s) (d * 2 * 2 ^ j) \<noteq> []" using ne by (simp add: mult.assoc)
    fix i assume "i < j"
    then have "Suc i < Suc j" by simp
    with em have "free_list (memory s) (d * 2 ^ Suc i) = []" by blast
    then show "free_list (memory s) (d * 2 * 2 ^ i) = []" by (simp add: mult.assoc)
  qed
qed

lemma total_memory_split_at [simp]: "total_memory (split_at d s) = total_memory s"
  by (simp add: split_at_def Let_def split: list.splits)

lemma allocated_split_at [simp]: "allocated (split_at d s) = allocated s"
  by (simp add: split_at_def Let_def split: list.splits)

lemma free_list_split_at:
  "0 < d \<Longrightarrow> free_list (memory s) d = blk # rest \<Longrightarrow>
   free_list (memory (split_at d s)) k =
     (if k = d div 2
      then free_list (memory s) (d div 2) @ [(fst blk, (fst blk + snd blk) div 2), ((fst blk + snd blk) div 2, snd blk)]
      else if k = d then rest else free_list (memory s) k)"
  by (auto simp: split_at_def Let_def)

lemma pow2_mult_inj: "0 < (b::int) \<Longrightarrow> b * 2 ^ i = b * 2 ^ j \<longleftrightarrow> i = j"
  by simp

lemma donor_at_split_at:
  assumes "0 < b" "donor_at s b (Suc j)"
  shows "donor_at (split_at (b * 2 ^ Suc j) s) b j"
proof -
  let ?d = "b * 2 ^ Suc j"
  from assms(2) have le: "?d \<le> total_memory s"
    and ne: "free_list (memory s) ?d \<noteq> []"
    and em: "\<forall>i<Suc j. free_list (memory s) (b * 2 ^ i) = []"
    by (simp_all add: donor_at_def)
  from ne obtain blk rest where br: "free_list (memory s) ?d = blk # rest"
    by (cases "free_list (memory s) ?d") auto
  have dpos: "0 < ?d" using assms(1) by simp
  have half: "?d div 2 = b * 2 ^ j" by simp
  have "(2::int) ^ j \<le> 2 ^ Suc j" by (intro power_increasing) simp_all
  then have "b * 2 ^ j \<le> ?d" using assms(1) by (intro mult_left_mono) simp_all
  with le have le': "b * 2 ^ j \<le> total_memory s" by simp
  show ?thesis
    unfolding donor_at_def
  proof (intro conjI allI impI)
    show "b * 2 ^ j \<le> total_memory (split_at ?d s)" using le' by simp
    show "free_list (memory (split_at ?d s)) (b * 2 ^ j) \<noteq> []"
      using free_list_split_at[OF dpos br, of "b * 2 ^ j"] half by simp
    fix i assume ij: "i < j"
    then have n1: "b * 2 ^ i \<noteq> ?d div 2" and n2: "b * 2 ^ i \<noteq> ?d"
      using assms(1) by (simp_all del: power_Suc add: half)
    from ij em have "free_list (memory s) (b * 2 ^ i) = []" by simp
    with free_list_split_at[OF dpos br, of "b * 2 ^ i"] n1 n2
    show "free_list (memory (split_at ?d s)) (b * 2 ^ i) = []" by (simp del: power_Suc)
  qed
qed

lemma allocate_loop_grant:
  "b \<le> total_memory s \<Longrightarrow> free_list (memory s) b \<noteq> [] \<Longrightarrow>
   allocate_loop n b s = Some (Some (hd (free_list (memory s) b)), grant n b s)"
  by (subst allocate_loop.simps) (auto simp: grant_def split: list.splits)

lemma allocate_loop_over: "\<not> b \<le> total_memory s \<Longrightarrow> allocate_loop n b s = Some (None, s)"
  by (subst allocate_loop.simps) simp

lemma no_donor_double: "no_donor s d \<Longrightarrow> no_donor s (d * 2)"
  unfolding no_donor_def
proof (intro allI impI)
  fix j assume nd: "\<forall>j. d * 2 ^ j \<le> total_memory s \<longrightarrow> free_list (memory s) (d * 2 ^ j) = []"
    and "d * 2 * 2 ^ j \<le> total_memory s"
  then have "d * 2 ^ Suc j \<le> total_memory s" by (simp add: mult.assoc)
  with nd have "free_list (memory s) (d * 2 ^ Suc j) = []" by blast
  then show "free_list (memory s) (d * 2 * 2 ^ j) = []" by (simp add: mult.assoc)
qed

lemma allocate_loop_no_donor:
  assumes "0 < b" "no_donor s b"
  shows "allocate_loop n b s = Some (None, s)"
proof (cases "b \<le> total_memory s")
  case False
  then show ?thesis by (rule allocate_loop_over)
next
  case True
  with assms(2) have e0: "free_list (memory s) b = []"
    unfolding no_donor_def by (metis mult.right_neutral power_0)
  have "split_block b s = Some (False, s)"
    unfolding split_block_def using assms by (intro split_loop_no_donor no_donor_double) simp_all
  with True e0 show ?thesis by (subst allocate_loop.simps) simp
qed

lemma allocate_loop_donor:
  "0 < b \<Longrightarrow> donor_at s b j \<Longrightarrow>
   allocate_loop n b s =
     Some (Some (hd (free_list (memory (split_chain b j s)) b)), grant n b (split_chain b j s))"
proof (induction j arbitrary: s)
  case 0
  then show ?case by (simp add: donor_at_def allocate_loop_grant)
next
  case (Suc j)
  note d = donor_at_Suc[OF Suc.prems]
  have "split_block b s = Some (True, split_at (b * 2 ^ Suc j) s)"
    unfolding split_block_def using split_loop_donor[OF _ d(3)] Suc.prems(1) by (simp add: mult.assoc)
  with d(1,2) have "allocate_loop n b s = allocate_loop n b (split_at (b * 2 ^ Suc j) s)"
    by (subst allocate_loop.simps) simp
  also have "\<dots> = Some (Some (hd (free_list (memory (split_chain b j (split_at (b * 2 ^ Suc j) s))) b)),
      grant n b (split_chain b j (split_at (b * 2 ^ Suc j) s)))"
    by (rule Suc.IH[OF Suc.prems(1) donor_at_split_at[OF Suc.prems]])
  finally show ?case by simp
qed

lemma find_nearest_power_of_two_pow2: "\<exists>j. find_nearest_power_of_two n = Some (2 ^ j)"
  using power_loop_pow2[of 1 n] unfolding find_nearest_power_of_two_def by auto


lemma no_donor_iff:
  "0 < p \<Longrightarrow> no_donor s p \<longleftrightarrow>
     (total_memory s < p \<or> (free_list (memory s) p = [] \<and>
        (\<forall>j\<ge>1. p * 2 ^ j \<le> total_memory s \<longrightarrow> free_list (memory s) (p * 2 ^ j) = [])))"
proof
  assume nd: "no_donor s p"
  show "total_memory s < p \<or> (free_list (memory s) p = [] \<and>
        (\<forall>j\<ge>1. p * 2 ^ j \<le> total_memory s \<longrightarrow> free_list (memory s) (p * 2 ^ j) = []))"
  proof (cases "total_memory s < p")
    case False
    then have "p * 2 ^ 0 \<le> total_memory s" by simp
    with nd have "free_list (memory s) (p * 2 ^ 0) = []" unfolding no_donor_def by blast
    with nd show ?thesis unfolding no_donor_def by simp
  qed simp
next
  assume p: "0 < p"
  assume r: "total_memory s < p \<or> (free_list (memory s) p = [] \<and>
        (\<forall>j\<ge>1. p * 2 ^ j \<le> total_memory s \<longrightarrow> free_list (memory s) (p * 2 ^ j) = []))"
  show "no_donor s p"
    unfolding no_donor_def
  proof (intro allI impI)
    fix j assume le: "p * 2 ^ j \<le> total_memory s"
    have "(1::int) \<le> 2 ^ j" by (rule one_le_power) simp
    then have "p * 1 \<le> p * 2 ^ j" using p by (intro mult_left_mono) simp_all
    with le have "p \<le> total_memory s" by simp
    with r have e: "free_list (memory s) p = []"
      and a: "\<forall>j\<ge>1. p * 2 ^ j \<le> total_memory s \<longrightarrow> free_list (memory s) (p * 2 ^ j) = []"
      by auto
    show "free_list (memory s) (p * 2 ^ j) = []"
    proof (cases j)
      case 0
      with e show ?thesis by simp
    next
      case (Suc i)
      then have "1 \<le> j" by simp
      with a le show ?thesis by blast
    qed
  qed
qed

lemma allocate_cases:
  assumes "find_nearest_power_of_two n = Some p" "0 < p"
  shows "(no_donor s p \<and> allocate n s = Some (None, s)) \<or>
         (\<exists>j. donor_at s p j \<and>
            allocate n s = Some (Some (hd (free_list (memory (split_chain p j s)) p)),
                                 grant n p (split_chain p j s)))"
proof -
  have a: "allocate n s = allocate_loop n p s" using assms(1) by (simp add: allocate_def)
  from donor_dichotomy[OF assms(2), of s] show ?thesis
  proof
    assume "no_donor s p"
    with allocate_loop_no_donor[OF assms(2) this, of n] a show ?thesis by simp
  next
    assume "\<exists>j. donor_at s p j"
    then obtain j where "donor_at s p j" ..
    with allocate_loop_donor[OF assms(2) this, of n] a show ?thesis by auto
  qed
qed

text \<open>One split, and the splits that \<^verbatim>\<open>allocate\<close> makes in a row.\<close>

lemma split_block_donor:
  assumes "0 < b" "donor_at s (b * 2) j" "free_list (memory s) (b * 2 ^ Suc j) = blk # rest"
  shows "split_block b s =
      Some (True, s\<lparr>memory := (memory s)(b * 2 ^ Suc j \<mapsto> rest,
         b * 2 ^ j \<mapsto> free_list (memory s) (b * 2 ^ j) @
            [(fst blk, (fst blk + snd blk) div 2), ((fst blk + snd blk) div 2, snd blk)])\<rparr>)"
proof -
  have ne: "b * 2 ^ j \<noteq> b * (2 * 2 ^ j)" using assms(1) by simp
  have "split_block b s = Some (True, split_at (b * 2 ^ Suc j) s)"
    unfolding split_block_def using split_loop_donor[OF _ assms(2)] assms(1) by (simp add: mult.assoc)
  also have "split_at (b * 2 ^ Suc j) s = s\<lparr>memory := (memory s)(b * 2 ^ Suc j \<mapsto> rest,
         b * 2 ^ j \<mapsto> free_list (memory s) (b * 2 ^ j) @
            [(fst blk, (fst blk + snd blk) div 2), ((fst blk + snd blk) div 2, snd blk)])\<rparr>"
    using assms(3) ne by (simp add: split_at_def Let_def)
  finally show ?thesis .
qed

lemma two_power_eq_1: "(2::int) ^ j = 1 \<longleftrightarrow> j = 0"
  using power_inject_exp[of "2::int" j 0] by simp


lemma grant_total_memory [simp]: "total_memory (grant n b s) = total_memory s"
  by (simp add: grant_def split: list.splits)


lemma allocated_split_chain [simp]: "allocated (split_chain b j s) = allocated s"
  by (induction j arbitrary: s) simp_all

lemma total_memory_split_chain [simp]: "total_memory (split_chain b j s) = total_memory s"
  by (induction j arbitrary: s) simp_all

lemma donor_at_split_chain:
  "0 < b \<Longrightarrow> donor_at s b j \<Longrightarrow> free_list (memory (split_chain b j s)) b \<noteq> []"
proof (induction j arbitrary: s)
  case 0
  then show ?case by (simp add: donor_at_def)
next
  case (Suc j)
  from Suc.IH[OF Suc.prems(1) donor_at_split_at[OF Suc.prems]] show ?case by simp
qed


lemma split_block_step:
  "0 < b \<Longrightarrow> donor_at s b (Suc j) \<Longrightarrow> split_block b s = Some (True, split_at (b * 2 ^ Suc j) s)"
  unfolding split_block_def
  using split_loop_donor[OF _ donor_at_Suc(3), of b s j] by (simp add: mult.assoc)

lemma split_block_times_chain:
  "0 < b \<Longrightarrow> donor_at s b j \<Longrightarrow> split_block_times j b s = Some (split_chain b j s)"
proof (induction j arbitrary: s)
  case 0
  then show ?case by simp
next
  case (Suc j)
  from Suc.IH[OF Suc.prems(1) donor_at_split_at[OF Suc.prems]] split_block_step[OF Suc.prems]
  show ?case by simp
qed

lemma split_block_times_partial:
  "0 < b \<Longrightarrow> donor_at s b m \<Longrightarrow> k \<le> m \<Longrightarrow>
   \<exists>t. split_block_times k b s = Some t \<and> donor_at t b (m - k)"
proof (induction k arbitrary: s m)
  case 0
  then show ?case by simp
next
  case (Suc k)
  then obtain m' where m: "m = Suc m'" by (cases m) simp_all
  with Suc.prems have d: "donor_at s b (Suc m')" and le: "k \<le> m'" by simp_all
  from Suc.IH[OF Suc.prems(1) donor_at_split_at[OF Suc.prems(1) d] le]
    split_block_step[OF Suc.prems(1) d]
  show ?case by (simp add: m)
qed

lemma donor_at_empty: "donor_at t b (Suc i) \<Longrightarrow> free_list (memory t) b = []"
  unfolding donor_at_def by (metis mult.right_neutral power_0 zero_less_Suc)

lemma split_chain_head:
  "0 < b \<Longrightarrow> donor_at s b (Suc j) \<Longrightarrow> free_list (memory s) (b * 2 ^ Suc j) = (a, a + b * 2 ^ Suc j) # rest \<Longrightarrow>
   free_list (memory (split_chain b (Suc j) s)) b = [(a, a + b), (a + b, a + 2 * b)]"
proof (induction j arbitrary: s rest)
  case 0
  have e: "free_list (memory s) b = []" using donor_at_empty[OF "0.prems"(2)] .
  have "(a + (a + b * 2)) div 2 = a + b" by simp
  with "0.prems" e show ?case
    by (simp add: free_list_split_at)
next
  case (Suc j)
  let ?d = "b * 2 ^ Suc (Suc j)"
  let ?s1 = "split_at ?d s"
  have d1: "donor_at ?s1 b (Suc j)" using donor_at_split_at[OF Suc.prems(1,2)] .
  have dpos: "0 < ?d" using Suc.prems(1) by simp
  have half: "?d div 2 = b * 2 ^ Suc j" by simp
  have e: "free_list (memory s) (b * 2 ^ Suc j) = []"
    using Suc.prems(2) unfolding donor_at_def by blast
  have mid: "(a + (a + ?d)) div 2 = a + b * 2 ^ Suc j"
  proof -
    have "a + (a + ?d) = 2 * (a + b * 2 ^ Suc j)" by simp
    then show ?thesis by (metis nonzero_mult_div_cancel_left zero_neq_numeral)
  qed
  have "free_list (memory ?s1) (b * 2 ^ Suc j) =
      [(a, a + b * 2 ^ Suc j), (a + b * 2 ^ Suc j, a + ?d)]"
    using free_list_split_at[OF dpos Suc.prems(3), of "b * 2 ^ Suc j"] half e mid
    by (simp del: power_Suc)
  from Suc.IH[OF Suc.prems(1) d1 this] show ?case by simp
qed

lemma find_nearest_pos: "find_nearest_power_of_two n = Some b \<Longrightarrow> 0 < b"
  using find_nearest_power_of_two_pow2[of n] by auto




lemma allocate_after_splits:
  assumes p: "find_nearest_power_of_two n = Some b" and d: "donor_at s b (Suc j)"
  shows "(\<forall>k\<le>j. \<exists>t. split_block_times k b s = Some t \<and> free_list (memory t) b = [] \<and>
             donor_at t b (Suc j - k))"
    and "\<exists>t g gs. split_block_times (Suc j) b s = Some t \<and> free_list (memory t) b = g # gs \<and>
           allocate n s = Some (Some g, t\<lparr>memory := (memory t)(b \<mapsto> gs),
                                          allocated := (allocated t)(fst g \<mapsto> (n, b))\<rparr>) \<and>
           (\<forall>blk rest. free_list (memory s) (b * 2 ^ Suc j) = blk # rest \<and> snd blk = fst blk + b * 2 ^ Suc j \<longrightarrow>
              g = (fst blk, fst blk + b) \<and> gs = [(fst blk + b, fst blk + 2 * b)])"
proof -
  from p have pos: "0 < b" by (rule find_nearest_pos)
  show "\<forall>k\<le>j. \<exists>t. split_block_times k b s = Some t \<and> free_list (memory t) b = [] \<and>
             donor_at t b (Suc j - k)"
  proof (intro allI impI)
    fix k assume k: "k \<le> j"
    then have "k \<le> Suc j" by simp
    from split_block_times_partial[OF pos d this] obtain t where
      t: "split_block_times k b s = Some t" "donor_at t b (Suc j - k)" by blast
    from k have "Suc j - k = Suc (j - k)" by simp
    with t(2) have "free_list (memory t) b = []" using donor_at_empty by metis
    with t show "\<exists>t. split_block_times k b s = Some t \<and> free_list (memory t) b = [] \<and>
             donor_at t b (Suc j - k)" by blast
  qed
  let ?t = "split_chain b (Suc j) s"
  from donor_at_split_chain[OF pos d] obtain g gs where f: "free_list (memory ?t) b = g # gs"
    by (cases "free_list (memory ?t) b") simp_all
  have a: "allocate n s = allocate_loop n b s" using p by (simp add: allocate_def)
  have "allocate n s = Some (Some g, ?t\<lparr>memory := (memory ?t)(b \<mapsto> gs),
                                          allocated := (allocated ?t)(fst g \<mapsto> (n, b))\<rparr>)"
    unfolding a allocate_loop_donor[OF pos d] using f by (simp add: grant_def)
  moreover have "\<forall>blk rest. free_list (memory s) (b * 2 ^ Suc j) = blk # rest \<and> snd blk = fst blk + b * 2 ^ Suc j \<longrightarrow>
              g = (fst blk, fst blk + b) \<and> gs = [(fst blk + b, fst blk + 2 * b)]"
  proof (intro allI impI)
    fix blk rest
    assume h: "free_list (memory s) (b * 2 ^ Suc j) = blk # rest \<and> snd blk = fst blk + b * 2 ^ Suc j"
    then have "free_list (memory s) (b * 2 ^ Suc j) = (fst blk, fst blk + b * 2 ^ Suc j) # rest"
      by (metis prod.collapse)
    from split_chain_head[OF pos d this] f
    show "g = (fst blk, fst blk + b) \<and> gs = [(fst blk + b, fst blk + 2 * b)]" by simp
  qed
  ultimately show "\<exists>t g gs. split_block_times (Suc j) b s = Some t \<and> free_list (memory t) b = g # gs \<and>
           allocate n s = Some (Some g, t\<lparr>memory := (memory t)(b \<mapsto> gs),
                                          allocated := (allocated t)(fst g \<mapsto> (n, b))\<rparr>) \<and>
           (\<forall>blk rest. free_list (memory s) (b * 2 ^ Suc j) = blk # rest \<and> snd blk = fst blk + b * 2 ^ Suc j \<longrightarrow>
              g = (fst blk, fst blk + b) \<and> gs = [(fst blk + b, fst blk + 2 * b)])"
    using split_block_times_chain[OF pos d] f by blast
qed

section \<open>When allocation fails\<close>

text \<open>
  C7. For every state and every request \<open>n \<ge> 1\<close>, \<^verbatim>\<open>allocate\<close> returns, and it returns
  \<^verbatim>\<open>None\<close> exactly when the rounded size \<open>p\<close> exceeds the capacity, or the class \<open>p\<close> has
  no free block and neither has any of the classes \<open>2 p, 4 p, \<dots>\<close> within the capacity.
  At capacity 16 a request of 20 is rounded to 32 and fails.
\<close>

theorem allocate_out_of_memory_iff:
  "1 \<le> n \<Longrightarrow>
   \<exists>p r s'. find_nearest_power_of_two n = Some p \<and> allocate n s = Some (r, s') \<and>
     (r = None \<longleftrightarrow>
        (total_memory s < p \<or>
         (free_list (memory s) p = [] \<and>
          (\<forall>j\<ge>1. p * 2 ^ j \<le> total_memory s \<longrightarrow> free_list (memory s) (p * 2 ^ j) = []))))"
proof -
  from find_nearest_power_of_two_pow2[of n] obtain i where
    p: "find_nearest_power_of_two n = Some (2 ^ i)" ..
  have pos: "(0::int) < 2 ^ i" by simp
  from allocate_cases[OF p pos, of s] show ?thesis
  proof
    assume "no_donor s (2 ^ i) \<and> allocate n s = Some (None, s)"
    then show ?thesis using p no_donor_iff[OF pos, of s] by auto
  next
    assume "\<exists>j. donor_at s (2 ^ i) j \<and>
       allocate n s = Some (Some (hd (free_list (memory (split_chain (2 ^ i) j s)) (2 ^ i))),
                            grant n (2 ^ i) (split_chain (2 ^ i) j s))"
    then obtain j where j: "donor_at s (2 ^ i) j"
      and a: "allocate n s = Some (Some (hd (free_list (memory (split_chain (2 ^ i) j s)) (2 ^ i))),
                            grant n (2 ^ i) (split_chain (2 ^ i) j s))" by blast
    from j have "\<not> no_donor s (2 ^ i)" unfolding donor_at_def no_donor_def by blast
    then show ?thesis using p a no_donor_iff[OF pos, of s] by auto
  qed
qed

theorem allocate_out_of_memory_iff_witness:
  "(1::int) \<le> 20 \<and> find_nearest_power_of_two 20 = Some 32 \<and>
   (\<exists>s'. allocate 20 (BuddySystem 16) = Some (None, s'))"
proof -
  have h: "(1::int) \<le> 20" by simp
  have p: "find_nearest_power_of_two 20 = Some 32"
    by (simp add: find_nearest_power_of_two_def power_loop.simps)
  from allocate_out_of_memory_iff[OF h, of "BuddySystem 16"] p obtain r s' where
    "allocate 20 (BuddySystem 16) = Some (r, s')"
    "r = None \<longleftrightarrow> (total_memory (BuddySystem 16) < 32 \<or>
         (free_list (memory (BuddySystem 16)) 32 = [] \<and>
          (\<forall>j\<ge>1. 32 * 2 ^ j \<le> total_memory (BuddySystem 16) \<longrightarrow>
              free_list (memory (BuddySystem 16)) (32 * 2 ^ j) = [])))"
    by auto
  moreover have "total_memory (BuddySystem 16) < 32" by (simp add: BuddySystem_def)
  ultimately show ?thesis using h p by auto
qed

text \<open>
  C9. For every state and every request, \<^verbatim>\<open>allocate\<close> returns, and when it returns
  \<^verbatim>\<open>None\<close> the state it leaves is the state it was called in: no split was made and
  neither table changed.
\<close>

theorem allocate_failure_no_mutation:
  "\<exists>r s'. allocate n s = Some (r, s') \<and> (r = None \<longrightarrow> s' = s)"
proof -
  from find_nearest_power_of_two_pow2[of n] obtain i where
    p: "find_nearest_power_of_two n = Some (2 ^ i)" ..
  have pos: "(0::int) < 2 ^ i" by simp
  from allocate_cases[OF p pos, of s] show ?thesis by auto
qed

theorem allocate_failure_no_mutation_witness:
  "allocate 1 \<lparr>total_memory = 16, memory = [16 \<mapsto> []], allocated = [0 \<mapsto> (16, 16)]\<rparr> =
     Some (None, \<lparr>total_memory = 16, memory = [16 \<mapsto> []], allocated = [0 \<mapsto> (16, 16)]\<rparr>)"
proof -
  let ?s = "\<lparr>total_memory = 16, memory = [16 \<mapsto> []], allocated = [0 \<mapsto> (16, 16)]\<rparr>"
  from allocate_failure_no_mutation[of 1 ?s] obtain r s' where
    a: "allocate 1 ?s = Some (r, s')" and u: "r = None \<longrightarrow> s' = ?s" by blast
  have "map_option fst (allocate 1 ?s) = Some None"
    by (simp add: allocate_def find_nearest_power_of_two_def power_loop.simps allocate_loop.simps
        split_block_def split_loop.simps free_list_def)
  with a have "r = None" by simp
  with a u show ?thesis by simp
qed

section \<open>What one split does\<close>

text \<open>
  C4, as the code has it. When the first non-empty class among \<open>2 b, 4 b, \<dots>\<close> is
  \<open>d = b * 2 ^ (j + 1)\<close>, one call of \<^verbatim>\<open>_split_block\<close> pops the first block of class
  \<open>d\<close> and appends its two halves to the class \<open>d div 2 = b * 2 ^ j\<close>, one class below the
  donor. That class is the wanted class \<open>b\<close> only when \<open>j = 0\<close>, that is when
  \<open>d = 2 b\<close>. When \<open>b\<close> is the rounded size of the request \<open>n\<close>, the class \<open>b\<close> is
  empty and the first non-empty class is \<open>d\<close>, \<^verbatim>\<open>allocate\<close> repeats the split: after
  each of the first \<open>j\<close> splits the class \<open>b\<close> is still empty and the donor stands one
  class lower than before; the split number \<open>j + 1\<close> fills the class \<open>b\<close>, and
  \<^verbatim>\<open>allocate\<close> returns the first block of that class and records it. For a donor block
  of the size of its class this is the lowest part \<open>(a, a + b)\<close> of the donor, and its buddy
  \<open>(a + b, a + 2 b)\<close> stays free.
\<close>

theorem split_block_one_class_down:
  "(0 < b \<and> donor_at s (b * 2) j \<and> free_list (memory s) (b * 2 ^ Suc j) = blk # rest \<longrightarrow>
      split_block b s =
        Some (True, s\<lparr>memory := (memory s)(b * 2 ^ Suc j \<mapsto> rest,
           b * 2 ^ j \<mapsto> free_list (memory s) (b * 2 ^ j) @
              [(fst blk, (fst blk + snd blk) div 2), ((fst blk + snd blk) div 2, snd blk)])\<rparr>)
      \<and> (b * 2 ^ j = b \<longleftrightarrow> j = 0)) \<and>
   (find_nearest_power_of_two n = Some b \<and> donor_at s b (Suc j) \<longrightarrow>
      (\<forall>k\<le>j. \<exists>t. split_block_times k b s = Some t \<and> free_list (memory t) b = [] \<and>
                 donor_at t b (Suc j - k)) \<and>
      (\<exists>t g gs. split_block_times (Suc j) b s = Some t \<and> free_list (memory t) b = g # gs \<and>
          allocate n s = Some (Some g, t\<lparr>memory := (memory t)(b \<mapsto> gs),
                                         allocated := (allocated t)(fst g \<mapsto> (n, b))\<rparr>) \<and>
          (\<forall>blk rest. free_list (memory s) (b * 2 ^ Suc j) = blk # rest \<and>
                      snd blk = fst blk + b * 2 ^ Suc j \<longrightarrow>
             g = (fst blk, fst blk + b) \<and> gs = [(fst blk + b, fst blk + 2 * b)])))"
proof (intro conjI impI)
  assume a: "0 < b \<and> donor_at s (b * 2) j \<and> free_list (memory s) (b * 2 ^ Suc j) = blk # rest"
  then show "split_block b s =
        Some (True, s\<lparr>memory := (memory s)(b * 2 ^ Suc j \<mapsto> rest,
           b * 2 ^ j \<mapsto> free_list (memory s) (b * 2 ^ j) @
              [(fst blk, (fst blk + snd blk) div 2), ((fst blk + snd blk) div 2, snd blk)])\<rparr>)"
    using split_block_donor[of b s j blk rest] by simp
  from a show "b * 2 ^ j = b \<longleftrightarrow> j = 0" by (simp add: two_power_eq_1)
next
  assume a: "find_nearest_power_of_two n = Some b \<and> donor_at s b (Suc j)"
  then have p: "find_nearest_power_of_two n = Some b" and d: "donor_at s b (Suc j)" by simp_all
  show "\<forall>k\<le>j. \<exists>t. split_block_times k b s = Some t \<and> free_list (memory t) b = [] \<and>
                 donor_at t b (Suc j - k)"
    by (rule allocate_after_splits(1)[OF p d])
  show "\<exists>t g gs. split_block_times (Suc j) b s = Some t \<and> free_list (memory t) b = g # gs \<and>
          allocate n s = Some (Some g, t\<lparr>memory := (memory t)(b \<mapsto> gs),
                                         allocated := (allocated t)(fst g \<mapsto> (n, b))\<rparr>) \<and>
          (\<forall>blk rest. free_list (memory s) (b * 2 ^ Suc j) = blk # rest \<and>
                      snd blk = fst blk + b * 2 ^ Suc j \<longrightarrow>
             g = (fst blk, fst blk + b) \<and> gs = [(fst blk + b, fst blk + 2 * b)])"
    by (rule allocate_after_splits(2)[OF p d])
qed

theorem split_block_one_class_down_witness:
  "split_block 1 \<lparr>total_memory = 8, memory = [8 \<mapsto> [(0, 8)]], allocated = Map.empty\<rparr> =
     Some (True, \<lparr>total_memory = 8, memory = [8 \<mapsto> [], 4 \<mapsto> [(0, 4), (4, 8)]], allocated = Map.empty\<rparr>) \<and>
   (\<exists>t. split_block_times 1 1 \<lparr>total_memory = 8, memory = [8 \<mapsto> [(0, 8)]], allocated = Map.empty\<rparr> = Some t \<and>
        free_list (memory t) 1 = [] \<and> donor_at t 1 2) \<and>
   (\<exists>t. split_block_times 3 1 \<lparr>total_memory = 8, memory = [8 \<mapsto> [(0, 8)]], allocated = Map.empty\<rparr> = Some t \<and>
        free_list (memory t) 1 = [(0, 1), (1, 2)] \<and>
        allocate 1 \<lparr>total_memory = 8, memory = [8 \<mapsto> [(0, 8)]], allocated = Map.empty\<rparr> =
          Some (Some (0, 1), t\<lparr>memory := (memory t)(1 \<mapsto> [(1, 2)]),
                                allocated := (allocated t)(0 \<mapsto> (1, 1))\<rparr>))"
proof -
  let ?s = "\<lparr>total_memory = 8, memory = [8 \<mapsto> [(0, 8)]], allocated = Map.empty\<rparr>"
  have d: "donor_at ?s (1 * 2) 2"
    by (simp add: donor_at_def free_list_def less_Suc_eq numeral_2_eq_2)
  have d3: "donor_at ?s 1 (Suc 2)"
    by (simp add: donor_at_def free_list_def less_Suc_eq numeral_2_eq_2)
  have f: "free_list (memory ?s) (1 * 2 ^ Suc 2) = (0, 8) # []"
    by (simp add: free_list_def)
  have p: "find_nearest_power_of_two 1 = Some 1"
    by (simp add: find_nearest_power_of_two_def power_loop.simps)
  note th = split_block_one_class_down[where b = 1 and s = ?s and j = 2 and blk = "(0, 8)"
      and rest = "[]" and n = 1]
  from th d f have 1: "split_block 1 ?s =
     Some (True, \<lparr>total_memory = 8, memory = [8 \<mapsto> [], 4 \<mapsto> [(0, 4), (4, 8)]], allocated = Map.empty\<rparr>)"
    by (simp add: free_list_def fun_eq_iff)
  from th p d3 have all: "\<forall>k\<le>2. \<exists>t. split_block_times k 1 ?s = Some t \<and> free_list (memory t) 1 = [] \<and>
                 donor_at t 1 (Suc 2 - k)"
    by blast
  then have 2: "\<exists>t. split_block_times 1 1 ?s = Some t \<and> free_list (memory t) 1 = [] \<and> donor_at t 1 2"
    by (metis One_nat_def Suc_1 diff_Suc_1 diff_Suc_Suc le_numeral_extra(4) lessI less_imp_le_nat numeral_2_eq_2)
  from th p d3 obtain t g gs where
    t: "split_block_times (Suc 2) 1 ?s = Some t" "free_list (memory t) 1 = g # gs"
      "allocate 1 ?s = Some (Some g, t\<lparr>memory := (memory t)(1 \<mapsto> gs),
                                         allocated := (allocated t)(fst g \<mapsto> (1, 1))\<rparr>)"
      "\<forall>blk rest. free_list (memory ?s) (1 * 2 ^ Suc 2) = blk # rest \<and>
                      snd blk = fst blk + 1 * 2 ^ Suc 2 \<longrightarrow>
             g = (fst blk, fst blk + 1) \<and> gs = [(fst blk + 1, fst blk + 2 * 1)]"
    by blast
  from t(4) f have "g = (0, 1) \<and> gs = [(1, 2)]" by simp
  with t(1,2,3) have 3: "\<exists>t. split_block_times 3 1 ?s = Some t \<and>
        free_list (memory t) 1 = [(0, 1), (1, 2)] \<and>
        allocate 1 ?s = Some (Some (0, 1), t\<lparr>memory := (memory t)(1 \<mapsto> [(1, 2)]),
                                allocated := (allocated t)(0 \<mapsto> (1, 1))\<rparr>)"
    by (simp add: numeral_3_eq_3)
  from 1 2 3 show ?thesis by blast
qed

text \<open>
  C4 as stated fails: at capacity 4 with the single free block \<open>(0, 4)\<close>, splitting for the
  wanted size 1 finds the donor at size 4 and leaves the halves \<open>(0, 2)\<close> and \<open>(2, 4)\<close> in
  class 2; class 1 is not even created.
\<close>

theorem split_block_counterexample:
  "split_block 1 (BuddySystem 4) =
     Some (True, \<lparr>total_memory = 4, memory = [4 \<mapsto> [], 2 \<mapsto> [(0, 2), (2, 4)]], allocated = Map.empty\<rparr>)"
  by (simp add: split_block_def split_loop.simps BuddySystem_def setdefault_append_def free_list_def fun_eq_iff)


section \<open>Requests that are not positive\<close>




section \<open>The order of selection\<close>




section \<open>Partitions and buddies\<close>

lemma partitions_split:
  assumes "partitions B tm" "(a, c) \<in> B" "a \<le> m" "m \<le> c"
  shows "partitions (insert (a, m) (insert (m, c) (B - {(a, c)}))) tm"
  unfolding partitions_def
proof (intro allI impI)
  fix x assume x: "0 \<le> x \<and> x < tm"
  with assms(1) obtain b0 where b0: "b0 \<in> B" "covers b0 x"
    and u: "\<And>b. b \<in> B \<Longrightarrow> covers b x \<Longrightarrow> b = b0"
    unfolding partitions_def by blast
  let ?B = "insert (a, m) (insert (m, c) (B - {(a, c)}))"
  show "\<exists>!blk. blk \<in> ?B \<and> covers blk x"
  proof (cases "b0 = (a, c)")
    case True
    with b0 have ac: "a \<le> x" "x < c" by (simp_all add: covers_def)
    have others: "\<not> covers b x" if "b \<in> B - {(a, c)}" for b
      using u[of b] that True by auto
    show ?thesis
    proof (cases "x < m")
      case True
      show ?thesis
      proof (rule ex1I[of _ "(a, m)"])
        show "(a, m) \<in> ?B \<and> covers (a, m) x" using ac True by (simp add: covers_def)
        fix b assume b: "b \<in> ?B \<and> covers b x"
        then have "b = (a, m) \<or> b = (m, c) \<or> b \<in> B - {(a, c)}" by blast
        moreover have "\<not> covers (m, c) x" using True by (simp add: covers_def)
        ultimately show "b = (a, m)" using others[of b] b by blast
      qed
    next
      case False
      show ?thesis
      proof (rule ex1I[of _ "(m, c)"])
        show "(m, c) \<in> ?B \<and> covers (m, c) x" using ac False by (simp add: covers_def)
        fix b assume b: "b \<in> ?B \<and> covers b x"
        then have "b = (a, m) \<or> b = (m, c) \<or> b \<in> B - {(a, c)}" by blast
        moreover have "\<not> covers (a, m) x" using False by (simp add: covers_def)
        ultimately show "b = (m, c)" using others[of b] b by blast
      qed
    qed
  next
    case False
    have nac: "\<not> covers (a, c) x" using u[OF assms(2)] False by auto
    show ?thesis
    proof (rule ex1I[of _ b0])
      show "b0 \<in> ?B \<and> covers b0 x" using b0 False by simp
      fix b assume b: "b \<in> ?B \<and> covers b x"
      have "\<not> covers (a, m) x" "\<not> covers (m, c) x"
        using nac assms(3,4) by (auto simp: covers_def)
      with b have "b \<in> B" by auto
      with b u show "b = b0" by blast
    qed
  qed
qed

lemma partitions_merge:
  assumes "partitions B tm" "(a, m) \<in> B" "(m, c) \<in> B" "a \<le> m" "m \<le> c"
  shows "partitions (insert (a, c) (B - {(a, m), (m, c)})) tm"
  unfolding partitions_def
proof (intro allI impI)
  fix x assume x: "0 \<le> x \<and> x < tm"
  with assms(1) obtain b0 where b0: "b0 \<in> B" "covers b0 x"
    and u: "\<And>b. b \<in> B \<Longrightarrow> covers b x \<Longrightarrow> b = b0"
    unfolding partitions_def by blast
  let ?B = "insert (a, c) (B - {(a, m), (m, c)})"
  show "\<exists>!blk. blk \<in> ?B \<and> covers blk x"
  proof (cases "covers (a, c) x")
    case True
    then have "covers (a, m) x \<or> covers (m, c) x" by (auto simp: covers_def)
    with u assms(2,3) have "b0 = (a, m) \<or> b0 = (m, c)" by blast
    show ?thesis
    proof (rule ex1I[of _ "(a, c)"])
      show "(a, c) \<in> ?B \<and> covers (a, c) x" using True by simp
      fix b assume b: "b \<in> ?B \<and> covers b x"
      show "b = (a, c)"
      proof (rule ccontr)
        assume "b \<noteq> (a, c)"
        with b have "b \<in> B" "b \<noteq> (a, m)" "b \<noteq> (m, c)" by auto
        with u[of b] b \<open>b0 = (a, m) \<or> b0 = (m, c)\<close> show False by auto
      qed
    qed
  next
    case False
    then have "\<not> covers (a, m) x" "\<not> covers (m, c) x"
      using assms(4,5) by (auto simp: covers_def)
    with b0 have "b0 \<noteq> (a, m)" "b0 \<noteq> (m, c)" by auto
    show ?thesis
    proof (rule ex1I[of _ b0])
      show "b0 \<in> ?B \<and> covers b0 x" using b0 \<open>b0 \<noteq> (a, m)\<close> \<open>b0 \<noteq> (m, c)\<close> by simp
      fix b assume b: "b \<in> ?B \<and> covers b x"
      with False have "b \<in> B" by auto
      with b u show "b = b0" by blast
    qed
  qed
qed

lemma partitions_unique:
  "partitions B tm \<Longrightarrow> b1 \<in> B \<Longrightarrow> b2 \<in> B \<Longrightarrow> covers b1 x \<Longrightarrow> covers b2 x \<Longrightarrow>
   0 \<le> x \<Longrightarrow> x < tm \<Longrightarrow> b1 = b2"
  unfolding partitions_def by blast

lemma xor_pow2_int: "(a::int) XOR 2 ^ j = (if bit a j then a - 2 ^ j else a + 2 ^ j)"
proof -
  have "a XOR 2 ^ j = flip_bit j a" by (simp add: flip_bit_eq_xor push_bit_eq_mult)
  also have "\<dots> = (if bit a j then a - 2 ^ j else a + 2 ^ j)"
    by (simp add: flip_bit_eq_if set_bit_eq unset_bit_eq)
  finally show ?thesis .
qed

lemma xor_aligned:
  "(a::int) XOR 2 ^ j = (if odd (a div 2 ^ j) then a - 2 ^ j else a + 2 ^ j)"
  by (simp add: xor_pow2_int bit_iff_odd)

lemma xor_lower_half: "2 * 2 ^ j dvd (a::int) \<Longrightarrow> a XOR 2 ^ j = a + 2 ^ j"
proof -
  assume "2 * 2 ^ j dvd a"
  then obtain q where "a = 2 * 2 ^ j * q" ..
  then have "a div 2 ^ j = 2 * q" by simp
  then show ?thesis by (simp add: xor_aligned)
qed

lemma buddy_of_involution [simp]: "buddy_of (buddy_of blk) = blk"
  by (cases blk) (simp add: buddy_of_def xor.assoc)

lemma size_buddy_of [simp]: "snd (buddy_of blk) - fst (buddy_of blk) = snd blk - fst blk"
  by (simp add: buddy_of_def)

lemma buddy_of_neq: "snd blk - fst blk \<noteq> 0 \<Longrightarrow> buddy_of blk \<noteq> blk"
  by (cases blk) (auto simp: buddy_of_def xor_self_eq bit_eq_iff bit_xor_iff)

lemma aligned_pos: "aligned tm k a \<Longrightarrow> 0 < k"
  by (auto simp: aligned_def)

lemma mem_free_blocks: "blk \<in> free_blocks s \<longleftrightarrow> (\<exists>k. blk \<in> set (free_list (memory s) k))"
  by (auto simp: free_blocks_def)

lemma mem_allocated_blocks:
  "blk \<in> allocated_blocks s \<longleftrightarrow> (\<exists>r. allocated s (fst blk) = Some (r, snd blk - fst blk))"
  by (cases blk) (auto simp: allocated_blocks_def)

lemma wf_sized: "well_formed s \<Longrightarrow> blk \<in> set (free_list (memory s) k) \<Longrightarrow> snd blk = fst blk + k"
  unfolding well_formed_def by blast

lemma wf_free_aligned:
  "well_formed s \<Longrightarrow> blk \<in> set (free_list (memory s) k) \<Longrightarrow> aligned (total_memory s) k (fst blk)"
  unfolding well_formed_def by blast

lemma wf_distinct: "well_formed s \<Longrightarrow> distinct (free_list (memory s) k)"
  unfolding well_formed_def by blast

lemma wf_alloc_aligned:
  "well_formed s \<Longrightarrow> allocated s a = Some (r, sz) \<Longrightarrow> aligned (total_memory s) sz a"
  unfolding well_formed_def by blast

lemma wf_disjoint: "well_formed s \<Longrightarrow> blk \<in> free_blocks s \<Longrightarrow> blk \<notin> allocated_blocks s"
  unfolding well_formed_def by blast

lemma wf_partitions:
  "well_formed s \<Longrightarrow> partitions (free_blocks s \<union> allocated_blocks s) (total_memory s)"
  unfolding well_formed_def by blast

lemma wf_free_class:
  "well_formed s \<Longrightarrow> blk \<in> free_blocks s \<longleftrightarrow> blk \<in> set (free_list (memory s) (snd blk - fst blk))"
  using wf_sized[of s blk] by (auto simp: mem_free_blocks)

text \<open>Every block of either table lies inside the range and is not empty.\<close>

lemma wf_block_bounds:
  assumes "well_formed s" "blk \<in> free_blocks s \<union> allocated_blocks s"
  shows "0 \<le> fst blk" "fst blk < snd blk" "snd blk \<le> total_memory s"
    "aligned (total_memory s) (snd blk - fst blk) (fst blk)"
proof -
  have al: "aligned (total_memory s) (snd blk - fst blk) (fst blk)"
  proof (cases "blk \<in> free_blocks s")
    case True
    then obtain k where k: "blk \<in> set (free_list (memory s) k)" by (auto simp: mem_free_blocks)
    from wf_sized[OF assms(1) k] wf_free_aligned[OF assms(1) k] show ?thesis by simp
  next
    case False
    with assms(2) obtain r where "allocated s (fst blk) = Some (r, snd blk - fst blk)"
      by (auto simp: mem_allocated_blocks)
    from wf_alloc_aligned[OF assms(1) this] show ?thesis .
  qed
  then show "aligned (total_memory s) (snd blk - fst blk) (fst blk)" .
  from al show "0 \<le> fst blk" by (simp add: aligned_def)
  from aligned_pos[OF al] show "fst blk < snd blk" by simp
  from al show "snd blk \<le> total_memory s" by (simp add: aligned_def)
qed

text \<open>Two blocks of the tables that share a point are the same block.\<close>

lemma wf_overlap_eq:
  assumes "well_formed s" "b1 \<in> free_blocks s \<union> allocated_blocks s"
    "b2 \<in> free_blocks s \<union> allocated_blocks s" "covers b1 x" "covers b2 x"
  shows "b1 = b2"
proof -
  from wf_block_bounds[OF assms(1,2)] assms(4) have "0 \<le> x" "x < total_memory s"
    by (auto simp: covers_def)
  with partitions_unique[OF wf_partitions[OF assms(1)] assms(2,3,4,5)] show ?thesis by simp
qed

lemma well_formed_BuddySystem: "well_formed (BuddySystem (2 ^ N))"
proof -
  have f: "free_blocks (BuddySystem (2 ^ N)) = {(0, 2 ^ N)}"
    by (auto simp: free_blocks_def BuddySystem_def free_list_def split: if_splits)
  have a: "allocated_blocks (BuddySystem (2 ^ N)) = {}"
    by (simp add: allocated_blocks_def BuddySystem_def)
  have p: "partitions {(0, 2 ^ N)} (2 ^ N)"
    by (auto simp: partitions_def covers_def)
  show ?thesis
    unfolding well_formed_def f a
    using p by (auto simp: BuddySystem_def free_list_def aligned_def split: if_splits)
qed

lemma coalesced_BuddySystem: "coalesced (BuddySystem (2 ^ N))"
proof -
  have f: "free_blocks (BuddySystem (2 ^ N)) = {(0, 2 ^ N)}"
    by (auto simp: free_blocks_def BuddySystem_def free_list_def split: if_splits)
  have "buddy_of (0, 2 ^ N) \<noteq> (0, 2 ^ N)" by (rule buddy_of_neq) simp
  then show ?thesis by (auto simp: coalesced_def paired_def f)
qed

lemma coalesced_only_pair: "coalesced s \<Longrightarrow> only_pair s h"
  by (simp add: coalesced_def only_pair_def)

section \<open>The operations keep the invariant\<close>

lemma well_formedI:
  assumes "\<And>k blk. blk \<in> set (free_list (memory s) k) \<Longrightarrow>
        snd blk = fst blk + k \<and> aligned (total_memory s) k (fst blk)"
    and "\<And>k. distinct (free_list (memory s) k)"
    and "\<And>a r sz. allocated s a = Some (r, sz) \<Longrightarrow> aligned (total_memory s) sz a"
    and "free_blocks s \<inter> allocated_blocks s = {}"
    and "partitions (free_blocks s \<union> allocated_blocks s) (total_memory s)"
  shows "well_formed s"
  unfolding well_formed_def using assms by blast

lemma free_blocks_upd1:
  assumes "well_formed s" "memory s' = (memory s)(k \<mapsto> l)"
  shows "free_blocks s' = (free_blocks s - set (free_list (memory s) k)) \<union> set l"
proof -
  have sz: "\<And>k x. x \<in> set (free_list (memory s) k) \<Longrightarrow> snd x - fst x = k"
    using wf_sized[OF assms(1)] by fastforce
  show ?thesis
  proof (intro set_eqI iffI)
    fix x assume "x \<in> free_blocks s'"
    then obtain k' where "x \<in> set (free_list (memory s') k')" by (auto simp: mem_free_blocks)
    then show "x \<in> (free_blocks s - set (free_list (memory s) k)) \<union> set l"
      using sz[of x k] sz[of x k'] by (auto simp: assms(2) mem_free_blocks split: if_splits)
  next
    fix x assume "x \<in> (free_blocks s - set (free_list (memory s) k)) \<union> set l"
    then consider "x \<in> set l" | k' where "x \<in> set (free_list (memory s) k')" "k' \<noteq> k"
      by (auto simp: mem_free_blocks)
    then show "x \<in> free_blocks s'"
    proof cases
      case 1
      then have "x \<in> set (free_list (memory s') k)" by (simp add: assms(2))
      then show ?thesis unfolding mem_free_blocks by blast
    next
      case 2
      then have "x \<in> set (free_list (memory s') k')" by (simp add: assms(2))
      then show ?thesis unfolding mem_free_blocks by blast
    qed
  qed
qed

lemma free_blocks_upd2:
  assumes "well_formed s" "memory s' = (memory s)(k1 \<mapsto> l1, k2 \<mapsto> l2)" "k1 \<noteq> k2"
  shows "free_blocks s' =
    (free_blocks s - set (free_list (memory s) k1) - set (free_list (memory s) k2)) \<union> set l1 \<union> set l2"
proof -
  have sz: "\<And>k x. x \<in> set (free_list (memory s) k) \<Longrightarrow> snd x - fst x = k"
    using wf_sized[OF assms(1)] by fastforce
  show ?thesis
  proof (intro set_eqI iffI)
    fix x assume "x \<in> free_blocks s'"
    then obtain k' where "x \<in> set (free_list (memory s') k')" by (auto simp: mem_free_blocks)
    then show "x \<in> (free_blocks s - set (free_list (memory s) k1) - set (free_list (memory s) k2))
        \<union> set l1 \<union> set l2"
      using sz[of x k1] sz[of x k2] sz[of x k']
      by (auto simp: assms(2) mem_free_blocks split: if_splits)
  next
    fix x assume "x \<in> (free_blocks s - set (free_list (memory s) k1) - set (free_list (memory s) k2))
        \<union> set l1 \<union> set l2"
    then consider "x \<in> set l1" | "x \<in> set l2"
      | k' where "x \<in> set (free_list (memory s) k')" "k' \<noteq> k1" "k' \<noteq> k2"
      by (auto simp: mem_free_blocks)
    then show "x \<in> free_blocks s'"
    proof cases
      case 1
      then have "x \<in> set (free_list (memory s') k1)" using assms(3) by (simp add: assms(2))
      then show ?thesis unfolding mem_free_blocks by blast
    next
      case 2
      then have "x \<in> set (free_list (memory s') k2)" by (simp add: assms(2))
      then show ?thesis unfolding mem_free_blocks by blast
    next
      case 3
      then have "x \<in> set (free_list (memory s') k')" by (simp add: assms(2))
      then show ?thesis unfolding mem_free_blocks by blast
    qed
  qed
qed

lemma allocated_blocks_cong: "allocated s' = allocated s \<Longrightarrow> allocated_blocks s' = allocated_blocks s"
  by (simp add: allocated_blocks_def)

lemma grant_eq:
  "free_list (memory s) b = blk # rest \<Longrightarrow>
   grant n b s = s\<lparr>memory := (memory s)(b \<mapsto> rest), allocated := (allocated s)(fst blk \<mapsto> (n, b))\<rparr>"
  by (simp add: grant_def)

lemma grant_well_formed:
  assumes wf: "well_formed s" and fl: "free_list (memory s) b = blk # rest"
  shows "well_formed (grant n b s)"
    and "free_blocks (grant n b s) = free_blocks s - {blk}"
    and "allocated_blocks (grant n b s) = insert blk (allocated_blocks s)"
    and "allocated s (fst blk) = None"
proof -
  let ?g = "grant n b s"
  have mem: "blk \<in> set (free_list (memory s) b)" by (simp add: fl)
  then have fr: "blk \<in> free_blocks s" unfolding mem_free_blocks by blast
  from wf_sized[OF wf mem] have snd: "snd blk = fst blk + b" .
  from wf_free_aligned[OF wf mem] have al: "aligned (total_memory s) b (fst blk)" .
  from aligned_pos[OF al] have bpos: "0 < b" .
  show none: "allocated s (fst blk) = None"
  proof (rule ccontr)
    assume "allocated s (fst blk) \<noteq> None"
    then obtain r sz where a: "allocated s (fst blk) = Some (r, sz)" by auto
    let ?b2 = "(fst blk, fst blk + sz)"
    have in2: "?b2 \<in> allocated_blocks s" using a by (simp add: mem_allocated_blocks)
    from aligned_pos[OF wf_alloc_aligned[OF wf a]] have "0 < sz" .
    then have c2: "covers ?b2 (fst blk)" by (simp add: covers_def)
    have c1: "covers blk (fst blk)" using snd bpos by (simp add: covers_def)
    from wf_overlap_eq[OF wf _ _ c1 c2] fr in2 have "blk = ?b2" by blast
    with in2 wf_disjoint[OF wf fr] show False by simp
  qed
  have gm: "memory ?g = (memory s)(b \<mapsto> rest)" and ga: "allocated ?g = (allocated s)(fst blk \<mapsto> (n, b))"
    and gt: "total_memory ?g = total_memory s"
    by (simp_all add: grant_eq[OF fl])
  from wf_distinct[OF wf, of b] fl have nin: "blk \<notin> set rest" and dr: "distinct rest" by simp_all
  have sub: "set rest \<subseteq> free_blocks s"
  proof
    fix x assume "x \<in> set rest"
    then have "x \<in> set (free_list (memory s) b)" by (simp add: fl)
    then show "x \<in> free_blocks s" unfolding mem_free_blocks by blast
  qed
  show fe: "free_blocks ?g = free_blocks s - {blk}"
    using free_blocks_upd1[OF wf gm] fl nin sub by auto
  show ae: "allocated_blocks ?g = insert blk (allocated_blocks s)"
  proof (intro set_eqI iffI)
    fix x assume "x \<in> allocated_blocks ?g"
    then show "x \<in> insert blk (allocated_blocks s)"
      using snd by (cases x) (auto simp: mem_allocated_blocks ga split: if_splits)
  next
    fix x assume "x \<in> insert blk (allocated_blocks s)"
    then show "x \<in> allocated_blocks ?g"
      using snd none by (cases x) (auto simp: mem_allocated_blocks ga)
  qed
  show "well_formed ?g"
  proof (rule well_formedI)
    fix k x assume "x \<in> set (free_list (memory ?g) k)"
    then have "x \<in> set (free_list (memory s) k)" using fl by (auto simp: gm split: if_splits)
    then show "snd x = fst x + k \<and> aligned (total_memory ?g) k (fst x)"
      using wf_sized[OF wf] wf_free_aligned[OF wf] by (simp add: gt)
  next
    fix k show "distinct (free_list (memory ?g) k)"
      using wf_distinct[OF wf, of k] dr by (simp add: gm)
  next
    fix a r sz assume "allocated ?g a = Some (r, sz)"
    then show "aligned (total_memory ?g) sz a"
      using al wf_alloc_aligned[OF wf, of a r sz] by (auto simp: ga gt split: if_splits)
  next
    show "free_blocks ?g \<inter> allocated_blocks ?g = {}"
      using wf_disjoint[OF wf] by (auto simp: fe ae)
  next
    have "free_blocks ?g \<union> allocated_blocks ?g = free_blocks s \<union> allocated_blocks s"
      using fr by (auto simp: fe ae)
    then show "partitions (free_blocks ?g \<union> allocated_blocks ?g) (total_memory ?g)"
      using wf_partitions[OF wf] by (simp add: gt)
  qed
qed

lemma pow2_half:
  assumes "(d::int) = 2 ^ i" "d = 2 * h"
  shows "\<exists>j. h = 2 ^ j"
proof (cases i)
  case 0
  with assms have "2 * h = 1" by simp
  then show ?thesis by presburger
next
  case (Suc j)
  with assms have "h = 2 ^ j" by simp
  then show ?thesis ..
qed

lemma split_at_eq:
  assumes "free_list (memory s) d = blk # rest" "d = 2 * h" "0 < h" "snd blk = fst blk + d"
  shows "split_at d s = s\<lparr>memory := (memory s)(d \<mapsto> rest,
      h \<mapsto> free_list (memory s) h @ [(fst blk, fst blk + h), (fst blk + h, snd blk)])\<rparr>"
proof -
  have "(fst blk + snd blk) div 2 = fst blk + h" using assms(2,4) by simp
  moreover have "d div 2 = h" "h \<noteq> d" using assms(2,3) by simp_all
  ultimately show ?thesis using assms(1) by (simp add: split_at_def Let_def)
qed

lemma split_at_well_formed:
  assumes wf: "well_formed s" and fl: "free_list (memory s) d = blk # rest" and dh: "d = 2 * h"
  shows "well_formed (split_at d s)"
    and "free_blocks (split_at d s) =
      insert (fst blk, fst blk + h) (insert (fst blk + h, snd blk) (free_blocks s - {blk}))"
    and "free_list (memory (split_at d s)) h =
      free_list (memory s) h @ [(fst blk, fst blk + h), (fst blk + h, snd blk)]"
proof -
  let ?t = "split_at d s"
  let ?a = "fst blk"
  let ?lo = "(?a, ?a + h)" and ?hi = "(?a + h, snd blk)"
  let ?B = "free_blocks s \<union> allocated_blocks s"
  have mem: "blk \<in> set (free_list (memory s) d)" by (simp add: fl)
  then have fr: "blk \<in> free_blocks s" unfolding mem_free_blocks by blast
  from wf_sized[OF wf mem] have snd: "snd blk = ?a + d" .
  from wf_free_aligned[OF wf mem] have al: "aligned (total_memory s) d ?a" .
  from aligned_pos[OF al] dh have hpos: "0 < h" by simp
  from al obtain i where di: "d = 2 ^ i" by (auto simp: aligned_def)
  from pow2_half[OF di dh] have hex: "\<exists>j. h = 2 ^ j" .
  from al have bnd: "0 \<le> ?a" "?a + d \<le> total_memory s" and ddvd: "d dvd ?a"
    by (simp_all add: aligned_def)
  have hdvd: "h dvd ?a" using ddvd dh by (auto dest: dvd_mult_right)
  have al_lo: "aligned (total_memory s) h ?a"
    unfolding aligned_def using hex hdvd bnd hpos dh by simp
  have al_hi: "aligned (total_memory s) h (?a + h)"
    unfolding aligned_def using hex hdvd bnd hpos dh by simp
  note eq = split_at_eq[OF fl dh hpos snd]
  have tm: "memory ?t = (memory s)(d \<mapsto> rest, h \<mapsto> free_list (memory s) h @ [?lo, ?hi])"
    and tt: "total_memory ?t = total_memory s" and ta: "allocated ?t = allocated s"
    by (simp_all add: eq)
  have hd: "h \<noteq> d" using dh hpos by simp
  show "free_list (memory ?t) h = free_list (memory s) h @ [?lo, ?hi]"
    by (simp add: tm)
  have cb: "covers blk ?a" "covers blk (?a + h)" using snd dh hpos by (simp_all add: covers_def)
  have lo_new: "?lo \<notin> ?B"
  proof
    assume "?lo \<in> ?B"
    moreover have "covers ?lo ?a" using hpos by (simp add: covers_def)
    ultimately have "?lo = blk" using wf_overlap_eq[OF wf _ _ _ cb(1), of ?lo] fr by blast
    then have "snd blk = ?a + h" by (metis snd_conv)
    with snd dh hpos show False by simp
  qed
  have hi_new: "?hi \<notin> ?B"
  proof
    assume "?hi \<in> ?B"
    moreover have "covers ?hi (?a + h)" using hpos snd dh by (simp add: covers_def)
    ultimately have "?hi = blk" using wf_overlap_eq[OF wf _ _ _ cb(2), of ?hi] fr by blast
    then have "fst blk = ?a + h" by (metis fst_conv)
    with hpos show False by simp
  qed
  from wf_distinct[OF wf, of d] fl have nin: "blk \<notin> set rest" and dr: "distinct rest" by simp_all
  have sub: "set rest \<subseteq> free_blocks s"
  proof
    fix x assume "x \<in> set rest"
    then have "x \<in> set (free_list (memory s) d)" by (simp add: fl)
    then show "x \<in> free_blocks s" unfolding mem_free_blocks by blast
  qed
  have subh: "set (free_list (memory s) h) \<subseteq> free_blocks s"
    by (auto simp: mem_free_blocks)
  have ninh: "blk \<notin> set (free_list (memory s) h)"
    using wf_sized[OF wf, of blk h] snd hd by auto
  show fe: "free_blocks ?t = insert ?lo (insert ?hi (free_blocks s - {blk}))"
    using free_blocks_upd2[OF wf tm hd[symmetric]] fl nin sub subh ninh by auto
  have ae: "allocated_blocks ?t = allocated_blocks s" using ta by (rule allocated_blocks_cong)
  show "well_formed ?t"
  proof (rule well_formedI)
    fix k x assume x: "x \<in> set (free_list (memory ?t) k)"
    consider "x = ?lo" "k = h" | "x = ?hi" "k = h" | "x \<in> set (free_list (memory s) k)"
      using x fl hd by (auto simp: tm split: if_splits)
    then show "snd x = fst x + k \<and> aligned (total_memory ?t) k (fst x)"
    proof cases
      case 1
      then show ?thesis using al_lo by (simp add: tt)
    next
      case 2
      then show ?thesis using al_hi snd dh by (simp add: tt)
    next
      case 3
      then show ?thesis using wf_sized[OF wf] wf_free_aligned[OF wf] by (simp add: tt)
    qed
  next
    fix k
    have "?lo \<notin> set (free_list (memory s) h)" "?hi \<notin> set (free_list (memory s) h)"
      using lo_new hi_new subh by blast+
    moreover have "?lo \<noteq> ?hi" using hpos by simp
    ultimately show "distinct (free_list (memory ?t) k)"
      using wf_distinct[OF wf] dr by (simp add: tm)
  next
    fix a r sz assume "allocated ?t a = Some (r, sz)"
    then show "aligned (total_memory ?t) sz a"
      using wf_alloc_aligned[OF wf, of a r sz] by (simp add: ta tt)
  next
    show "free_blocks ?t \<inter> allocated_blocks ?t = {}"
      using wf_disjoint[OF wf] lo_new hi_new by (auto simp: fe ae)
  next
    have "free_blocks ?t \<union> allocated_blocks ?t = insert ?lo (insert ?hi (?B - {blk}))"
      using wf_disjoint[OF wf fr] by (auto simp: fe ae)
    moreover have beq: "blk = (?a, ?a + d)" using snd by (simp add: prod_eq_iff)
    have inB: "(?a, ?a + d) \<in> ?B" using fr beq by simp
    have "partitions (insert (?a, ?a + h) (insert (?a + h, ?a + d) (?B - {(?a, ?a + d)})))
        (total_memory s)"
      by (rule partitions_split[OF wf_partitions[OF wf] inB]) (use hpos dh in simp_all)
    ultimately show "partitions (free_blocks ?t \<union> allocated_blocks ?t) (total_memory ?t)"
      using snd beq by (simp add: tt)
  qed
qed

lemma buddy_of_lower_half:
  assumes "h = 2 ^ j" "2 * h dvd a"
  shows "buddy_of (a, a + h) = (a + h, a + 2 * h)"
  using xor_lower_half[of j a] assms by (simp add: buddy_of_def)

lemma split_at_only_pair:
  assumes wf: "well_formed s" and fl: "free_list (memory s) d = blk # rest" and dh: "d = 2 * h"
    and op: "only_pair s blk"
  shows "only_pair (split_at d s) (fst blk, fst blk + h)"
proof -
  let ?a = "fst blk"
  let ?lo = "(?a, ?a + h)" and ?hi = "(?a + h, snd blk)"
  have mem: "blk \<in> set (free_list (memory s) d)" by (simp add: fl)
  from wf_sized[OF wf mem] have snd: "snd blk = ?a + d" .
  from wf_free_aligned[OF wf mem] have al: "aligned (total_memory s) d ?a" .
  from al obtain i where di: "d = 2 ^ i" by (auto simp: aligned_def)
  from pow2_half[OF di dh] obtain j where hj: "h = 2 ^ j" ..
  from al dh have "2 * h dvd ?a" by (simp add: aligned_def)
  from buddy_of_lower_half[OF hj this] snd dh have bl: "buddy_of ?lo = ?hi" by simp
  then have bh: "buddy_of ?hi = ?lo" by (metis buddy_of_involution)
  note fe = split_at_well_formed(2)[OF wf fl dh]
  show ?thesis
    unfolding only_pair_def
  proof (intro allI impI)
    fix x assume p: "paired (split_at d s) x"
    then have x: "x \<in> insert ?lo (insert ?hi (free_blocks s - {blk}))"
      and bx: "buddy_of x \<in> insert ?lo (insert ?hi (free_blocks s - {blk}))"
      by (simp_all add: paired_def fe)
    show "x = ?lo \<or> x = buddy_of ?lo"
    proof (rule ccontr)
      assume n: "\<not> (x = ?lo \<or> x = buddy_of ?lo)"
      with x bl have xf: "x \<in> free_blocks s" "x \<noteq> blk" by auto
      have "buddy_of x \<noteq> ?lo" using n bl by (metis buddy_of_involution)
      moreover have "buddy_of x \<noteq> ?hi" using n bh by (metis buddy_of_involution)
      ultimately have bf: "buddy_of x \<in> free_blocks s" "buddy_of x \<noteq> blk" using bx by auto
      from xf bf have "paired s x" by (simp add: paired_def)
      with op have "x = blk \<or> x = buddy_of blk" unfolding only_pair_def by blast
      with xf(2) bf(2) show False by auto
    qed
  qed
qed

lemma grant_coalesced:
  assumes wf: "well_formed s" and fl: "free_list (memory s) b = blk # rest"
    and op: "only_pair s blk"
  shows "coalesced (grant n b s)"
  unfolding coalesced_def
proof (intro allI notI)
  fix x assume "paired (grant n b s) x"
  then have x: "x \<in> free_blocks s" "x \<noteq> blk" and bx: "buddy_of x \<in> free_blocks s" "buddy_of x \<noteq> blk"
    by (simp_all add: paired_def grant_well_formed(2)[OF wf fl])
  then have "paired s x" by (simp add: paired_def)
  with op have "x = blk \<or> x = buddy_of blk" unfolding only_pair_def by blast
  with x(2) bx(2) show False by auto
qed

lemma split_chain_invariant:
  "0 < p \<Longrightarrow> donor_at s p j \<Longrightarrow> well_formed s \<Longrightarrow>
   only_pair s (hd (free_list (memory s) (p * 2 ^ j))) \<Longrightarrow>
   well_formed (split_chain p j s) \<and>
   only_pair (split_chain p j s) (hd (free_list (memory (split_chain p j s)) p))"
proof (induction j arbitrary: s)
  case 0
  then show ?case by simp
next
  case (Suc j)
  let ?d = "p * 2 ^ Suc j" and ?h = "p * 2 ^ j"
  have dh: "?d = 2 * ?h" by simp
  from Suc.prems(2) have ne: "free_list (memory s) ?d \<noteq> []"
    and em: "free_list (memory s) ?h = []"
    by (simp_all add: donor_at_def)
  from ne obtain blk rest where fl: "free_list (memory s) ?d = blk # rest"
    by (cases "free_list (memory s) ?d") auto
  then have hd: "hd (free_list (memory s) ?d) = blk" by simp
  let ?t = "split_at ?d s"
  note w = split_at_well_formed[OF Suc.prems(3) fl dh]
  from w(3) em have "hd (free_list (memory ?t) ?h) = (fst blk, fst blk + ?h)" by simp
  moreover have "only_pair ?t (fst blk, fst blk + ?h)"
    using split_at_only_pair[OF Suc.prems(3) fl dh] Suc.prems(4) hd by simp
  ultimately have op: "only_pair ?t (hd (free_list (memory ?t) ?h))" by simp
  from Suc.IH[OF Suc.prems(1) donor_at_split_at[OF Suc.prems(1,2)] w(1) op]
  show ?case by simp
qed

lemma allocate_invariant:
  assumes wf: "well_formed s" and co: "coalesced s"
  shows "\<exists>r s'. allocate n s = Some (r, s') \<and> well_formed s' \<and> coalesced s' \<and>
     total_memory s' = total_memory s \<and>
     (case r of None \<Rightarrow> s' = s
      | Some blk \<Rightarrow>
          (\<exists>p. find_nearest_power_of_two n = Some p \<and> snd blk = fst blk + p \<and> p dvd fst blk \<and>
               allocated s (fst blk) = None \<and>
               allocated s' = (allocated s)(fst blk \<mapsto> (n, p))) \<and>
          allocated_blocks s' = insert blk (allocated_blocks s))"
proof -
  from find_nearest_power_of_two_pow2[of n] obtain i where
    p: "find_nearest_power_of_two n = Some (2 ^ i)" ..
  let ?p = "(2::int) ^ i"
  have pos: "0 < ?p" by simp
  from allocate_cases[OF p pos, of s] show ?thesis
  proof
    assume "no_donor s ?p \<and> allocate n s = Some (None, s)"
    with wf co show ?thesis by simp
  next
    assume "\<exists>j. donor_at s ?p j \<and>
        allocate n s = Some (Some (hd (free_list (memory (split_chain ?p j s)) ?p)),
                             grant n ?p (split_chain ?p j s))"
    then obtain j where dj: "donor_at s ?p j"
      and a: "allocate n s = Some (Some (hd (free_list (memory (split_chain ?p j s)) ?p)),
                             grant n ?p (split_chain ?p j s))" by blast
    let ?c = "split_chain ?p j s"
    from split_chain_invariant[OF pos dj wf coalesced_only_pair[OF co]]
    have wc: "well_formed ?c" and oc: "only_pair ?c (hd (free_list (memory ?c) ?p))" by simp_all
    from donor_at_split_chain[OF pos dj] obtain blk rest where
      fl: "free_list (memory ?c) ?p = blk # rest"
      by (cases "free_list (memory ?c) ?p") auto
    then have hd: "hd (free_list (memory ?c) ?p) = blk" by simp
    note g = grant_well_formed[OF wc fl]
    have cg: "coalesced (grant n ?p ?c)" using grant_coalesced[OF wc fl] oc hd by simp
    have mem: "blk \<in> set (free_list (memory ?c) ?p)" by (simp add: fl)
    from wf_sized[OF wc mem] have snd: "snd blk = fst blk + ?p" .
    from wf_free_aligned[OF wc mem] have dv: "?p dvd fst blk" by (simp add: aligned_def)
    have al: "allocated (grant n ?p ?c) = (allocated s)(fst blk \<mapsto> (n, ?p))"
      by (simp add: grant_eq[OF fl])
    have ab: "allocated_blocks ?c = allocated_blocks s"
      by (rule allocated_blocks_cong) simp
    show ?thesis
      using a hd g(1)[of n] cg p snd dv g(3)[of n] g(4) al ab by simp
  qed
qed

lemma release_well_formed:
  assumes wf: "well_formed s" and a: "allocated s a = Some (r, sz)"
  shows "well_formed (release (a, a + sz) s)"
    and "free_blocks (release (a, a + sz) s) = insert (a, a + sz) (free_blocks s)"
    and "allocated_blocks (release (a, a + sz) s) = allocated_blocks s - {(a, a + sz)}"
    and "(a, a + sz) \<in> set (free_list (memory (release (a, a + sz) s)) sz)"
proof -
  let ?blk = "(a, a + sz)"
  let ?t = "release ?blk s"
  have tm: "memory ?t = (memory s)(sz \<mapsto> free_list (memory s) sz @ [?blk])"
    and ta: "allocated ?t = (allocated s)(a := None)"
    and tt: "total_memory ?t = total_memory s"
    by (simp_all add: release_def setdefault_append_def)
  from wf_alloc_aligned[OF wf a] have al: "aligned (total_memory s) sz a" .
  have inA: "?blk \<in> allocated_blocks s" using a by (simp add: mem_allocated_blocks)
  then have notF: "?blk \<notin> free_blocks s" using wf_disjoint[OF wf] by blast
  show "?blk \<in> set (free_list (memory ?t) sz)" by (simp add: tm)
  show fe: "free_blocks ?t = insert ?blk (free_blocks s)"
    using free_blocks_upd1[OF wf tm] by (auto simp: mem_free_blocks)
  show ae: "allocated_blocks ?t = allocated_blocks s - {?blk}"
  proof (intro set_eqI iffI)
    fix x assume "x \<in> allocated_blocks ?t"
    then show "x \<in> allocated_blocks s - {?blk}"
      by (cases x) (auto simp: mem_allocated_blocks ta split: if_splits)
  next
    fix x assume "x \<in> allocated_blocks s - {?blk}"
    then show "x \<in> allocated_blocks ?t"
      using a by (cases x) (auto simp: mem_allocated_blocks ta)
  qed
  show "well_formed ?t"
  proof (rule well_formedI)
    fix k x assume "x \<in> set (free_list (memory ?t) k)"
    then consider "x = ?blk" "k = sz" | "x \<in> set (free_list (memory s) k)"
      by (auto simp: tm split: if_splits)
    then show "snd x = fst x + k \<and> aligned (total_memory ?t) k (fst x)"
    proof cases
      case 1
      then show ?thesis using al by (simp add: tt)
    next
      case 2
      then show ?thesis using wf_sized[OF wf] wf_free_aligned[OF wf] by (simp add: tt)
    qed
  next
    fix k
    have "?blk \<notin> set (free_list (memory s) sz)" using notF by (auto simp: mem_free_blocks)
    then show "distinct (free_list (memory ?t) k)" using wf_distinct[OF wf] by (simp add: tm)
  next
    fix a' r' sz' assume "allocated ?t a' = Some (r', sz')"
    then show "aligned (total_memory ?t) sz' a'"
      using wf_alloc_aligned[OF wf, of a' r' sz'] by (auto simp: ta tt split: if_splits)
  next
    show "free_blocks ?t \<inter> allocated_blocks ?t = {}"
      using wf_disjoint[OF wf] by (auto simp: fe ae)
  next
    have "free_blocks ?t \<union> allocated_blocks ?t = free_blocks s \<union> allocated_blocks s"
      using inA by (auto simp: fe ae)
    then show "partitions (free_blocks ?t \<union> allocated_blocks ?t) (total_memory ?t)"
      using wf_partitions[OF wf] by (simp add: tt)
  qed
qed

lemma release_only_pair:
  assumes wf: "well_formed s" and a: "allocated s a = Some (r, sz)" and co: "coalesced s"
  shows "only_pair (release (a, a + sz) s) (a, a + sz)"
  unfolding only_pair_def
proof (intro allI impI)
  let ?blk = "(a, a + sz)"
  fix x assume "paired (release ?blk s) x"
  then have x: "x \<in> insert ?blk (free_blocks s)" and bx: "buddy_of x \<in> insert ?blk (free_blocks s)"
    by (simp_all add: paired_def release_well_formed(2)[OF wf a])
  show "x = ?blk \<or> x = buddy_of ?blk"
  proof (rule ccontr)
    assume n: "\<not> (x = ?blk \<or> x = buddy_of ?blk)"
    then have "buddy_of x \<noteq> ?blk" by (metis buddy_of_involution)
    with n x bx have "paired s x" by (auto simp: paired_def)
    with co show False unfolding coalesced_def by blast
  qed
qed

lemma deallocate_eq:
  "allocated s a = Some (r, sz) \<Longrightarrow>
   deallocate (a, a + sz) s = merge_buddies sz (a, a + sz) (release (a, a + sz) s)"
  by (simp add: deallocate_def release_def Let_def dom_def)

lemma merged_shape:
  assumes "sz = 2 ^ j" "sz dvd a"
  shows "\<exists>p. 2 * sz dvd p \<and> merged_block (a, a + sz) = (p, p + 2 * sz) \<and>
     ((a = p \<and> buddy_of (a, a + sz) = (p + sz, p + 2 * sz)) \<or>
      (a = p + sz \<and> buddy_of (a, a + sz) = (p, p + sz)))"
proof -
  from assms(2) obtain q where q: "a = sz * q" ..
  have pos: "0 < sz" using assms(1) by simp
  have dq: "a div 2 ^ j = q" using q assms(1) by simp
  have bd: "buddy_of (a, a + sz) = (if odd q then (a - sz, a) else (a + sz, a + 2 * sz))"
    using xor_aligned[of a j] dq assms(1) by (simp add: buddy_of_def)
  show ?thesis
  proof (cases "odd q")
    case True
    then obtain m where "q = 2 * m + 1" by (auto elim: oddE)
    then have "a - sz = 2 * sz * m" using q by (simp add: algebra_simps)
    then have "2 * sz dvd a - sz" by simp
    moreover have "merged_block (a, a + sz) = (a - sz, a - sz + 2 * sz)"
      using bd True pos by (simp add: merged_block_def)
    ultimately show ?thesis using bd True by (intro exI[of _ "a - sz"]) simp
  next
    case False
    then obtain m where "q = 2 * m" by (auto elim: evenE)
    then have "2 * sz dvd a" using q by simp
    moreover have "merged_block (a, a + sz) = (a, a + 2 * sz)"
      using bd False pos by (simp add: merged_block_def)
    ultimately show ?thesis using bd False by (intro exI[of _ a]) simp
  qed
qed

lemma merge_at_well_formed:
  assumes wf: "well_formed s" and mb: "blk \<in> set (free_list (memory s) sz)"
    and mbd: "buddy_of blk \<in> set (free_list (memory s) sz)"
  shows "well_formed (merge_at sz blk s)"
    and "free_blocks (merge_at sz blk s) =
      insert (merged_block blk) (free_blocks s - {blk, buddy_of blk})"
    and "merged_block blk \<in> set (free_list (memory (merge_at sz blk s)) (sz * 2))"
proof -
  let ?t = "merge_at sz blk s"
  let ?bd = "buddy_of blk" and ?m = "merged_block blk"
  let ?l = "free_list (memory s) sz"
  let ?l2 = "remove1 blk (remove1 ?bd ?l)"
  let ?B = "free_blocks s \<union> allocated_blocks s"
  let ?a = "fst blk"
  from wf_sized[OF wf mb] have snd: "snd blk = ?a + sz" .
  then have beq: "blk = (?a, ?a + sz)" by (simp add: prod_eq_iff)
  from wf_free_aligned[OF wf mb] have al: "aligned (total_memory s) sz ?a" .
  from wf_free_aligned[OF wf mbd] have ald: "aligned (total_memory s) sz (fst ?bd)" .
  from wf_sized[OF wf mbd] have sndd: "snd ?bd = fst ?bd + sz" .
  from aligned_pos[OF al] have pos: "0 < sz" .
  from al obtain j where sj: "sz = 2 ^ j" and dv: "sz dvd ?a" by (auto simp: aligned_def)
  from merged_shape[OF sj dv] beq obtain p where
    p2: "2 * sz dvd p" and me: "?m = (p, p + 2 * sz)"
    and sh: "(?a = p \<and> ?bd = (p + sz, p + 2 * sz)) \<or> (?a = p + sz \<and> ?bd = (p, p + sz))"
    by metis
  have fr: "blk \<in> free_blocks s" "?bd \<in> free_blocks s"
    using mb mbd unfolding mem_free_blocks by blast+
  have "(p, p + sz) \<in> free_blocks s \<and> (p + sz, p + 2 * sz) \<in> free_blocks s \<and>
      {blk, ?bd} = {(p, p + sz), (p + sz, p + 2 * sz)}"
  proof (rule disjE[OF sh])
    assume c: "?a = p \<and> ?bd = (p + sz, p + 2 * sz)"
    then have "blk = (p, p + sz)" using beq by simp
    with c fr show ?thesis by simp
  next
    assume c: "?a = p + sz \<and> ?bd = (p, p + sz)"
    then have "blk = (p + sz, p + 2 * sz)" using beq by simp
    with c fr show ?thesis by auto
  qed
  then have halves: "(p, p + sz) \<in> free_blocks s" "(p + sz, p + 2 * sz) \<in> free_blocks s"
    and pair: "{blk, ?bd} = {(p, p + sz), (p + sz, p + 2 * sz)}" by simp_all
  have bounds: "0 \<le> p" "p + 2 * sz \<le> total_memory s"
    using sh al ald sndd by (auto simp: aligned_def)
  have alm: "aligned (total_memory s) (sz * 2) p"
    unfolding aligned_def using p2 bounds sj by (auto simp: mult.commute intro: exI[of _ "Suc j"])
  have m_new: "?m \<notin> ?B"
  proof
    assume "?m \<in> ?B"
    moreover have "covers ?m p" "covers (p, p + sz) p" using pos me by (simp_all add: covers_def)
    ultimately have "?m = (p, p + sz)" using wf_overlap_eq[OF wf, of ?m "(p, p + sz)" p] halves by blast
    with me pos show False by simp
  qed
  have ne: "sz \<noteq> sz * 2" using pos by simp
  have tm: "memory ?t = (memory s)(sz \<mapsto> ?l2, sz * 2 \<mapsto> free_list (memory s) (sz * 2) @ [?m])"
    and tt: "total_memory ?t = total_memory s" and ta: "allocated ?t = allocated s"
    using ne by (simp_all add: merge_at_def setdefault_append_def)
  show "?m \<in> set (free_list (memory ?t) (sz * 2))" by (simp add: tm)
  have dl: "distinct ?l" by (rule wf_distinct[OF wf])
  then have set2: "set ?l2 = set ?l - {blk, ?bd}" by (auto simp: set_remove1_eq)
  have dl2: "distinct ?l2" using dl by simp
  have sub: "set ?l \<subseteq> free_blocks s" "set (free_list (memory s) (sz * 2)) \<subseteq> free_blocks s"
    by (auto simp: mem_free_blocks)
  have nin2: "blk \<notin> set (free_list (memory s) (sz * 2))" "?bd \<notin> set (free_list (memory s) (sz * 2))"
    using wf_sized[OF wf, of blk "sz * 2"] wf_sized[OF wf, of ?bd "sz * 2"] snd sndd pos by auto
  show fe: "free_blocks ?t = insert ?m (free_blocks s - {blk, ?bd})"
    using free_blocks_upd2[OF wf tm ne] set2 sub nin2 mb mbd by auto
  have ae: "allocated_blocks ?t = allocated_blocks s" using ta by (rule allocated_blocks_cong)
  show "well_formed ?t"
  proof (rule well_formedI)
    fix k x assume x: "x \<in> set (free_list (memory ?t) k)"
    then consider "x = ?m" "k = sz * 2" | "x \<in> set (free_list (memory s) k)"
      using set2 by (auto simp: tm split: if_splits)
    then show "snd x = fst x + k \<and> aligned (total_memory ?t) k (fst x)"
    proof cases
      case 1
      then show ?thesis using alm me by (simp add: tt)
    next
      case 2
      then show ?thesis using wf_sized[OF wf] wf_free_aligned[OF wf] by (simp add: tt)
    qed
  next
    fix k
    have "?m \<notin> set (free_list (memory s) (sz * 2))" using m_new sub(2) by blast
    then show "distinct (free_list (memory ?t) k)" using wf_distinct[OF wf] dl2 by (simp add: tm)
  next
    fix a r sz' assume "allocated ?t a = Some (r, sz')"
    then show "aligned (total_memory ?t) sz' a"
      using wf_alloc_aligned[OF wf, of a r sz'] by (simp add: ta tt)
  next
    show "free_blocks ?t \<inter> allocated_blocks ?t = {}"
      using wf_disjoint[OF wf] m_new by (auto simp: fe ae)
  next
    have "free_blocks ?t \<union> allocated_blocks ?t = insert ?m (?B - {blk, ?bd})"
      using wf_disjoint[OF wf fr(1)] wf_disjoint[OF wf fr(2)] by (auto simp: fe ae)
    moreover have "partitions (insert (p, p + 2 * sz) (?B - {(p, p + sz), (p + sz, p + 2 * sz)}))
        (total_memory s)"
      by (rule partitions_merge[OF wf_partitions[OF wf]]) (use halves pos in simp_all)
    ultimately show "partitions (free_blocks ?t \<union> allocated_blocks ?t) (total_memory ?t)"
      using pair me by (simp add: tt)
  qed
qed

lemma merge_at_only_pair:
  assumes wf: "well_formed s" and mb: "blk \<in> set (free_list (memory s) sz)"
    and mbd: "buddy_of blk \<in> set (free_list (memory s) sz)" and op: "only_pair s blk"
  shows "only_pair (merge_at sz blk s) (merged_block blk)"
  unfolding only_pair_def
proof (intro allI impI)
  let ?m = "merged_block blk"
  fix x assume "paired (merge_at sz blk s) x"
  then have x: "x \<in> insert ?m (free_blocks s - {blk, buddy_of blk})"
    and bx: "buddy_of x \<in> insert ?m (free_blocks s - {blk, buddy_of blk})"
    by (simp_all add: paired_def merge_at_well_formed(2)[OF wf mb mbd])
  show "x = ?m \<or> x = buddy_of ?m"
  proof (rule ccontr)
    assume n: "\<not> (x = ?m \<or> x = buddy_of ?m)"
    then have "buddy_of x \<noteq> ?m" by (metis buddy_of_involution)
    with n x bx have "paired s x" "x \<noteq> blk" "x \<noteq> buddy_of blk" by (auto simp: paired_def)
    with op show False unfolding only_pair_def by blast
  qed
qed

lemma only_pair_coalesced:
  assumes "only_pair s blk" "buddy_of blk \<notin> free_blocks s"
  shows "coalesced s"
  unfolding coalesced_def
proof (intro allI notI)
  fix x assume p: "paired s x"
  with assms(1) have "x = blk \<or> x = buddy_of blk" unfolding only_pair_def by blast
  with p assms(2) show False by (auto simp: paired_def)
qed

lemma merge_buddies_stop:
  "snd blk = fst blk + sz \<Longrightarrow> buddy_of blk \<notin> set (free_list (memory s) sz) \<Longrightarrow>
   merge_buddies sz blk s = Some (None, s)"
  by (subst merge_buddies.simps) (simp add: buddy_of_def Let_def)

lemma merge_buddies_step:
  assumes "snd blk = fst blk + sz" "sz \<noteq> 0" "blk \<in> set (free_list (memory s) sz)"
    "buddy_of blk \<in> set (free_list (memory s) sz)"
  shows "merge_buddies sz blk s = merge_buddies (sz * 2) (merged_block blk) (merge_at sz blk s)"
proof -
  have bd: "buddy_of blk = (fst blk XOR sz, (fst blk XOR sz) + sz)"
    using assms(1) by (simp add: buddy_of_def)
  have "buddy_of blk \<noteq> blk" using assms(1,2) by (intro buddy_of_neq) simp
  then have "blk \<in> set (remove1 (buddy_of blk) (free_list (memory s) sz))"
    using assms(3) by simp
  then show ?thesis
    using assms(4) bd
    by (subst merge_buddies.simps) (simp add: Let_def merge_at_def merged_block_def)
qed

lemma merge_buddies_invariant:
  "well_formed s \<Longrightarrow> blk \<in> set (free_list (memory s) sz) \<Longrightarrow> only_pair s blk \<Longrightarrow>
   \<exists>s'. merge_buddies sz blk s = Some (None, s') \<and> well_formed s' \<and> coalesced s' \<and>
        allocated s' = allocated s \<and> total_memory s' = total_memory s"
proof (induction "nat (total_memory s - sz)" arbitrary: s blk sz rule: less_induct)
  case less
  note wf = less.prems(1) and mb = less.prems(2) and op = less.prems(3)
  from wf_sized[OF wf mb] have snd: "snd blk = fst blk + sz" .
  from aligned_pos[OF wf_free_aligned[OF wf mb]] have pos: "0 < sz" .
  show ?case
  proof (cases "buddy_of blk \<in> set (free_list (memory s) sz)")
    case False
    then have "buddy_of blk \<notin> free_blocks s"
      using wf_free_class[OF wf, of "buddy_of blk"] snd by simp
    from only_pair_coalesced[OF op this] merge_buddies_stop[OF snd False] wf
    show ?thesis by simp
  next
    case True
    let ?t = "merge_at sz blk s" and ?m = "merged_block blk"
    note w = merge_at_well_formed[OF wf mb True]
    have tt: "total_memory ?t = total_memory s" and ta: "allocated ?t = allocated s"
      by (simp_all add: merge_at_def)
    from wf_free_aligned[OF w(1) w(3)] have "sz * 2 \<le> total_memory s"
      by (simp add: aligned_def tt)
    with pos have m: "nat (total_memory ?t - sz * 2) < nat (total_memory s - sz)"
      by (simp add: tt)
    from less.hyps[OF m w(1) w(3) merge_at_only_pair[OF wf mb True op]]
    obtain s' where "merge_buddies (sz * 2) ?m ?t = Some (None, s')" "well_formed s'"
      "coalesced s'" "allocated s' = allocated ?t" "total_memory s' = total_memory ?t"
      by blast
    with merge_buddies_step[OF snd _ mb True] pos show ?thesis by (simp add: tt ta)
  qed
qed

lemma deallocate_invariant:
  assumes wf: "well_formed s" and co: "coalesced s" and a: "allocated s a = Some (r, sz)"
  shows "\<exists>s'. deallocate (a, a + sz) s = Some (None, s') \<and> well_formed s' \<and> coalesced s' \<and>
     total_memory s' = total_memory s \<and> allocated s' = (allocated s)(a := None) \<and>
     allocated_blocks s' = allocated_blocks s - {(a, a + sz)}"
proof -
  let ?blk = "(a, a + sz)"
  let ?t = "release ?blk s"
  note w = release_well_formed[OF wf a]
  from merge_buddies_invariant[OF w(1) w(4) release_only_pair[OF wf a co]]
  obtain s' where s': "merge_buddies sz ?blk ?t = Some (None, s')" "well_formed s'"
    "coalesced s'" "allocated s' = allocated ?t" "total_memory s' = total_memory ?t"
    by blast
  have "allocated_blocks s' = allocated_blocks ?t" using s'(4) by (rule allocated_blocks_cong)
  with s' w(3) deallocate_eq[OF a] show ?thesis by (simp add: release_def)
qed

lemma free_list_fold_ensure:
  "free_list (fold (\<lambda>sz m. if sz \<in> dom m then m else m(sz \<mapsto> [])) ks m) k = free_list m k"
proof (induction ks arbitrary: m)
  case Nil
  then show ?case by simp
next
  case (Cons a ks)
  have "free_list (if a \<in> dom m then m else m(a \<mapsto> [])) k = free_list m k"
    by (auto simp: free_list_def dom_def split: option.splits)
  with Cons.IH[of "if a \<in> dom m then m else m(a \<mapsto> [])"] show ?case by simp
qed

lemma ensure_memory_keys_fields [simp]:
  "free_list (memory (ensure_memory_keys s)) k = free_list (memory s) k"
  "allocated (ensure_memory_keys s) = allocated s"
  "total_memory (ensure_memory_keys s) = total_memory s"
  by (simp_all add: ensure_memory_keys_def free_list_fold_ensure)

lemma ensure_memory_keys_invariant:
  "well_formed (ensure_memory_keys s) = well_formed s"
  "coalesced (ensure_memory_keys s) = coalesced s"
proof -
  have f: "free_blocks (ensure_memory_keys s) = free_blocks s" by (simp add: free_blocks_def)
  have a: "allocated_blocks (ensure_memory_keys s) = allocated_blocks s"
    by (rule allocated_blocks_cong) simp
  show "well_formed (ensure_memory_keys s) = well_formed s" by (simp add: well_formed_def f a)
  show "coalesced (ensure_memory_keys s) = coalesced s" by (simp add: coalesced_def paired_def f)
qed

lemma step_invariant:
  assumes "well_formed s" "coalesced s"
  shows "\<exists>s'. step q s = Some s' \<and> well_formed s' \<and> coalesced s' \<and> total_memory s' = total_memory s"
proof (cases q)
  case (Allocate n)
  from allocate_invariant[OF assms, of n] show ?thesis by (auto simp: Allocate)
next
  case (Deallocate a)
  show ?thesis
  proof (cases "allocated s a")
    case None
    with assms show ?thesis by (simp add: Deallocate deallocate_block_def)
  next
    case (Some e)
    then obtain r sz where "allocated s a = Some (r, sz)" by (cases e) simp
    from deallocate_invariant[OF assms this] this show ?thesis
      by (auto simp: Deallocate deallocate_block_def)
  qed
next
  case EnsureMemoryKeys
  with assms show ?thesis by (simp add: ensure_memory_keys_invariant)
qed

lemma run_invariant:
  "well_formed s \<Longrightarrow> coalesced s \<Longrightarrow>
   \<exists>s'. run qs s = Some s' \<and> well_formed s' \<and> coalesced s' \<and> total_memory s' = total_memory s"
proof (induction qs arbitrary: s)
  case Nil
  then show ?case by simp
next
  case (Cons q qs)
  from step_invariant[OF Cons.prems, of q] obtain s1 where
    s1: "step q s = Some s1" "well_formed s1" "coalesced s1" "total_memory s1 = total_memory s"
    by blast
  from Cons.IH[OF s1(2,3)] s1(1,4) show ?case by auto
qed

lemma run_BuddySystem:
  "\<exists>s. run qs (BuddySystem (2 ^ N)) = Some s \<and> well_formed s \<and> coalesced s \<and> total_memory s = 2 ^ N"
  using run_invariant[OF well_formed_BuddySystem coalesced_BuddySystem, of qs N]
  by (simp add: BuddySystem_def)

lemma wf_pairwise_disjoint:
  assumes "well_formed s" "b1 \<in> free_blocks s \<union> allocated_blocks s"
    "b2 \<in> free_blocks s \<union> allocated_blocks s" "b1 \<noteq> b2"
  shows "{fst b1..<snd b1} \<inter> {fst b2..<snd b2} = {}"
proof (rule ccontr)
  assume "{fst b1..<snd b1} \<inter> {fst b2..<snd b2} \<noteq> {}"
  then obtain x where "x \<in> {fst b1..<snd b1}" "x \<in> {fst b2..<snd b2}" by blast
  then have "covers b1 x" "covers b2 x" by (simp_all add: covers_def)
  from wf_overlap_eq[OF assms(1,2,3) this] assms(4) show False by simp
qed

lemma wf_cover:
  assumes "well_formed s"
  shows "(\<Union>b \<in> free_blocks s \<union> allocated_blocks s. {fst b..<snd b}) = {0..<total_memory s}"
proof (intro set_eqI iffI)
  fix x assume "x \<in> (\<Union>b \<in> free_blocks s \<union> allocated_blocks s. {fst b..<snd b})"
  then obtain b where b: "b \<in> free_blocks s \<union> allocated_blocks s" "fst b \<le> x" "x < snd b" by auto
  from wf_block_bounds[OF assms b(1)] b(2,3) show "x \<in> {0..<total_memory s}" by simp
next
  fix x assume "x \<in> {0..<total_memory s}"
  then have "0 \<le> x \<and> x < total_memory s" by simp
  with wf_partitions[OF assms] obtain b where
    "b \<in> free_blocks s \<union> allocated_blocks s" "covers b x"
    unfolding partitions_def by blast
  then show "x \<in> (\<Union>b \<in> free_blocks s \<union> allocated_blocks s. {fst b..<snd b})"
    by (auto simp: covers_def)
qed

lemma wf_classes_disjoint:
  assumes "well_formed s" "k \<noteq> k'"
  shows "set (free_list (memory s) k) \<inter> set (free_list (memory s) k') = {}"
  using wf_sized[OF assms(1), of _ k] wf_sized[OF assms(1), of _ k'] assms(2) by fastforce

section \<open>Releasing an address that is not allocated\<close>

lemma double_free:
  assumes "run qs (BuddySystem (2 ^ N)) = Some t" "allocated t a = Some (r, sz)"
  shows "\<exists>t'. deallocate_block a t = Some (None, t') \<and> allocated t' a = None \<and>
           allocated t' = (allocated t)(a := None) \<and>
           deallocate_block a t' = Some (Some NotAllocated, t')"
proof -
  from run_BuddySystem[of qs N] assms(1) have wf: "well_formed t" and co: "coalesced t" by auto
  from deallocate_invariant[OF wf co assms(2)] obtain t' where
    t': "deallocate (a, a + sz) t = Some (None, t')" "allocated t' = (allocated t)(a := None)" by blast
  then show ?thesis using assms(2) by (simp add: deallocate_block_def)
qed

text \<open>
  C2. Releasing an address that is not a key of \<^verbatim>\<open>allocated\<close> fails with the
  refusal of \<^verbatim>\<open>deallocate_block\<close> and leaves the state, hence both tables, as it was.
  This holds for every state. An address that was allocated and has been released is such an
  address: in every state reached from a fresh allocator of capacity \<open>2 ^ N\<close>, releasing
  an allocated address succeeds and removes the address from \<^verbatim>\<open>allocated\<close>, and
  releasing it a second time fails and changes nothing.
\<close>

theorem deallocate_block_unknown_address:
  "(allocated s address = None \<longrightarrow> deallocate_block address s = Some (Some NotAllocated, s)) \<and>
   (run qs (BuddySystem (2 ^ N)) = Some t \<and> allocated t a = Some (r, sz) \<longrightarrow>
      (\<exists>t'. deallocate_block a t = Some (None, t') \<and> allocated t' a = None \<and>
            deallocate_block a t' = Some (Some NotAllocated, t')))"
proof (intro conjI impI)
  assume "allocated s address = None"
  then show "deallocate_block address s = Some (Some NotAllocated, s)"
    by (simp add: deallocate_block_def)
next
  assume "run qs (BuddySystem (2 ^ N)) = Some t \<and> allocated t a = Some (r, sz)"
  then have "run qs (BuddySystem (2 ^ N)) = Some t" "allocated t a = Some (r, sz)" by simp_all
  from double_free[OF this]
  show "\<exists>t'. deallocate_block a t = Some (None, t') \<and> allocated t' a = None \<and>
            deallocate_block a t' = Some (Some NotAllocated, t')" by blast
qed

theorem deallocate_block_unknown_address_witness:
  "allocated (BuddySystem 16) 4 = None \<and>
   deallocate_block 4 (BuddySystem 16) = Some (Some NotAllocated, BuddySystem 16) \<and>
   (\<exists>t'. deallocate_block 0 \<lparr>total_memory = 2, memory = [2 \<mapsto> [], 1 \<mapsto> [(1, 2)]],
                              allocated = [0 \<mapsto> (1, 1)]\<rparr> = Some (None, t') \<and>
         allocated t' 0 = None \<and> deallocate_block 0 t' = Some (Some NotAllocated, t'))"
proof -
  let ?t = "\<lparr>total_memory = 2, memory = [2 \<mapsto> [], 1 \<mapsto> [(1, 2)]], allocated = [0 \<mapsto> (1, 1)]\<rparr>"
  have h: "allocated (BuddySystem 16) 4 = None" by (simp add: BuddySystem_def)
  have r: "run [Allocate 1] (BuddySystem (2 ^ 1)) = Some ?t"
    by (simp add: allocate_def find_nearest_power_of_two_def power_loop.simps allocate_loop.simps
        split_block_def split_loop.simps BuddySystem_def setdefault_append_def free_list_def fun_eq_iff)
  have a: "allocated ?t 0 = Some (1, 1)" by simp
  note th = deallocate_block_unknown_address[where s = "BuddySystem 16" and address = 4
      and qs = "[Allocate 1]" and N = 1 and t = ?t and a = 0 and r = 1 and sz = 1]
  from th h r a show ?thesis by blast
qed

section \<open>The partition of the range\<close>

text \<open>
  C1. From the allocator of a capacity \<open>2 ^ N\<close>, every sequence of requests runs to an end,
  and in the state it reaches the free blocks of all sizes together with the allocated
  blocks partition the range: two different blocks share no address, their union is the
  whole range from 0 up to the capacity, no block is both free and allocated, and no block
  is listed twice, in one free list or in two. A release goes through the lookup of
  \<^verbatim>\<open>deallocate_block\<close>, so it releases a block that is allocated or does nothing;
  \<^verbatim>\<open>_ensure_memory_keys\<close> may be called at any point.
\<close>

theorem partition_invariant:
  "\<exists>s. run reqs (BuddySystem (2 ^ N)) = Some s \<and> total_memory s = 2 ^ N \<and>
     (\<forall>b1 \<in> free_blocks s \<union> allocated_blocks s. \<forall>b2 \<in> free_blocks s \<union> allocated_blocks s.
        b1 \<noteq> b2 \<longrightarrow> {fst b1..<snd b1} \<inter> {fst b2..<snd b2} = {}) \<and>
     (\<Union>b \<in> free_blocks s \<union> allocated_blocks s. {fst b..<snd b}) = {0..<2 ^ N} \<and>
     free_blocks s \<inter> allocated_blocks s = {} \<and>
     (\<forall>k. distinct (free_list (memory s) k)) \<and>
     (\<forall>k k'. k \<noteq> k' \<longrightarrow> set (free_list (memory s) k) \<inter> set (free_list (memory s) k') = {})"
proof -
  from run_BuddySystem[of reqs N] obtain s where
    s: "run reqs (BuddySystem (2 ^ N)) = Some s" "well_formed s" "total_memory s = 2 ^ N"
    by blast
  have "\<forall>b1 \<in> free_blocks s \<union> allocated_blocks s. \<forall>b2 \<in> free_blocks s \<union> allocated_blocks s.
        b1 \<noteq> b2 \<longrightarrow> {fst b1..<snd b1} \<inter> {fst b2..<snd b2} = {}"
    using wf_pairwise_disjoint[OF s(2)] by blast
  moreover have "(\<Union>b \<in> free_blocks s \<union> allocated_blocks s. {fst b..<snd b}) = {0..<2 ^ N}"
    using wf_cover[OF s(2)] s(3) by simp
  moreover have "free_blocks s \<inter> allocated_blocks s = {}"
    using wf_disjoint[OF s(2)] by blast
  moreover have "\<forall>k. distinct (free_list (memory s) k)" using wf_distinct[OF s(2)] by blast
  moreover have "\<forall>k k'. k \<noteq> k' \<longrightarrow> set (free_list (memory s) k) \<inter> set (free_list (memory s) k') = {}"
    using wf_classes_disjoint[OF s(2)] by blast
  ultimately show ?thesis using s(1,3) by blast
qed

text \<open>
  C8. In every state reached from the allocator of a capacity \<open>2 ^ N\<close>, every block of a
  free list and every allocated block has a power of two as its size and starts at a
  multiple of it, and a block that \<^verbatim>\<open>allocate\<close> returns has the rounded request as its
  size, starts at a multiple of it and is recorded with the request and that size.
\<close>

theorem alignment_invariant:
  "\<exists>s. run reqs (BuddySystem (2 ^ N)) = Some s \<and>
     (\<forall>k blk. blk \<in> set (free_list (memory s) k) \<longrightarrow>
        (\<exists>j. k = 2 ^ j) \<and> snd blk - fst blk = k \<and> fst blk mod k = 0) \<and>
     (\<forall>a r sz. allocated s a = Some (r, sz) \<longrightarrow> (\<exists>j. sz = 2 ^ j) \<and> a mod sz = 0) \<and>
     (\<forall>n. \<exists>r s'. allocate n s = Some (r, s') \<and>
        (\<forall>blk. r = Some blk \<longrightarrow>
           (\<exists>p. find_nearest_power_of_two n = Some p \<and> allocated s' (fst blk) = Some (n, p) \<and>
                snd blk - fst blk = p \<and> fst blk mod p = 0)))"
proof -
  from run_BuddySystem[of reqs N] obtain s where
    s: "run reqs (BuddySystem (2 ^ N)) = Some s" "well_formed s" "coalesced s"
    by blast
  have 1: "\<forall>k blk. blk \<in> set (free_list (memory s) k) \<longrightarrow>
        (\<exists>j. k = 2 ^ j) \<and> snd blk - fst blk = k \<and> fst blk mod k = 0"
  proof (intro allI impI)
    fix k blk assume m: "blk \<in> set (free_list (memory s) k)"
    from wf_sized[OF s(2) m] wf_free_aligned[OF s(2) m]
    show "(\<exists>j. k = 2 ^ j) \<and> snd blk - fst blk = k \<and> fst blk mod k = 0"
      by (auto simp: aligned_def)
  qed
  have 2: "\<forall>a r sz. allocated s a = Some (r, sz) \<longrightarrow> (\<exists>j. sz = 2 ^ j) \<and> a mod sz = 0"
    using wf_alloc_aligned[OF s(2)] by (auto simp: aligned_def)
  have 3: "\<forall>n. \<exists>r s'. allocate n s = Some (r, s') \<and>
        (\<forall>blk. r = Some blk \<longrightarrow>
           (\<exists>p. find_nearest_power_of_two n = Some p \<and> allocated s' (fst blk) = Some (n, p) \<and>
                snd blk - fst blk = p \<and> fst blk mod p = 0))"
  proof
    fix n
    from allocate_invariant[OF s(2,3), of n] obtain r s' where
      a: "allocate n s = Some (r, s')"
      and c: "case r of None \<Rightarrow> s' = s
        | Some blk \<Rightarrow>
          (\<exists>p. find_nearest_power_of_two n = Some p \<and> snd blk = fst blk + p \<and> p dvd fst blk \<and>
               allocated s (fst blk) = None \<and>
               allocated s' = (allocated s)(fst blk \<mapsto> (n, p))) \<and>
          allocated_blocks s' = insert blk (allocated_blocks s)"
      by blast
    have "\<forall>blk. r = Some blk \<longrightarrow>
           (\<exists>p. find_nearest_power_of_two n = Some p \<and> allocated s' (fst blk) = Some (n, p) \<and>
                snd blk - fst blk = p \<and> fst blk mod p = 0)"
      using c by (auto split: option.splits)
    with a show "\<exists>r s'. allocate n s = Some (r, s') \<and>
        (\<forall>blk. r = Some blk \<longrightarrow>
           (\<exists>p. find_nearest_power_of_two n = Some p \<and> allocated s' (fst blk) = Some (n, p) \<and>
                snd blk - fst blk = p \<and> fst blk mod p = 0))" by blast
  qed
  from s(1) 1 2 3 show ?thesis by blast
qed

lemma run_example:
  "run [EnsureMemoryKeys, Allocate 1, Allocate 2, Deallocate 0] (BuddySystem (2 ^ 2)) =
     Some \<lparr>total_memory = 4, memory = [4 \<mapsto> [], 2 \<mapsto> [(0, 2)], 1 \<mapsto> []],
           allocated = [2 \<mapsto> (2, 2)]\<rparr>"
  by (simp add: allocate_def find_nearest_power_of_two_def power_loop.simps allocate_loop.simps
      split_block_def split_loop.simps BuddySystem_def setdefault_append_def free_list_def
      deallocate_block_def deallocate_def merge_buddies.simps Let_def fun_eq_iff
      ensure_memory_keys_def bit_length.simps)

lemma allocate_all_invariant:
  "well_formed s \<Longrightarrow> coalesced s \<Longrightarrow> allocate_all ns s = Some (map Some blks, s1) \<Longrightarrow>
   well_formed s1 \<and> coalesced s1 \<and> total_memory s1 = total_memory s \<and>
   allocated_blocks s1 = allocated_blocks s \<union> set blks \<and> distinct blks \<and>
   set blks \<inter> allocated_blocks s = {}"
proof (induction ns arbitrary: s blks)
  case Nil
  then show ?case by simp
next
  case (Cons n ns)
  from allocate_invariant[OF Cons.prems(1,2), of n] obtain r s' where
    a: "allocate n s = Some (r, s')" and w: "well_formed s'" "coalesced s'"
    and t: "total_memory s' = total_memory s"
    and c: "case r of None \<Rightarrow> s' = s
        | Some blk \<Rightarrow>
          (\<exists>p. find_nearest_power_of_two n = Some p \<and> snd blk = fst blk + p \<and> p dvd fst blk \<and>
               allocated s (fst blk) = None \<and>
               allocated s' = (allocated s)(fst blk \<mapsto> (n, p))) \<and>
          allocated_blocks s' = insert blk (allocated_blocks s)"
    by blast
  from Cons.prems(3) a obtain rs where
    rest: "allocate_all ns s' = Some (rs, s1)" and rr: "r # rs = map Some blks"
    by (auto split: bind_splits)
  from rr obtain b bs where blks: "blks = b # bs" "r = Some b" "rs = map Some bs"
    by (cases blks) auto
  from c blks(2) have nb: "allocated s (fst b) = None"
    and ab: "allocated_blocks s' = insert b (allocated_blocks s)" by auto
  from nb have bn: "b \<notin> allocated_blocks s" by (simp add: mem_allocated_blocks)
  from Cons.IH[OF w rest[unfolded blks(3)]] have ih: "well_formed s1" "coalesced s1"
    "total_memory s1 = total_memory s'" "allocated_blocks s1 = allocated_blocks s' \<union> set bs"
    "distinct bs" "set bs \<inter> allocated_blocks s' = {}" by simp_all
  from ih ab bn t show ?case by (auto simp: blks(1))
qed

lemma deallocate_all_invariant:
  "well_formed s \<Longrightarrow> coalesced s \<Longrightarrow> distinct bs \<Longrightarrow> set bs \<subseteq> allocated_blocks s \<Longrightarrow>
   \<exists>es s2. deallocate_all bs s = Some (es, s2) \<and> well_formed s2 \<and> coalesced s2 \<and>
      total_memory s2 = total_memory s \<and> allocated_blocks s2 = allocated_blocks s - set bs"
proof (induction bs arbitrary: s)
  case Nil
  then show ?case by simp
next
  case (Cons b bs)
  from Cons.prems(4) have "b \<in> allocated_blocks s" by simp
  then obtain r where a: "allocated s (fst b) = Some (r, snd b - fst b)"
    by (auto simp: mem_allocated_blocks)
  have beq: "(fst b, fst b + (snd b - fst b)) = b" by (simp add: prod_eq_iff)
  from deallocate_invariant[OF Cons.prems(1,2) a] beq obtain s' where
    d: "deallocate b s = Some (None, s')" and w: "well_formed s'" "coalesced s'"
    and t: "total_memory s' = total_memory s"
    and ab: "allocated_blocks s' = allocated_blocks s - {b}"
    by auto
  from Cons.prems(3,4) ab have "distinct bs" "set bs \<subseteq> allocated_blocks s'" by auto
  from Cons.IH[OF w this] obtain es s2 where
    "deallocate_all bs s' = Some (es, s2)" "well_formed s2" "coalesced s2"
    "total_memory s2 = total_memory s'" "allocated_blocks s2 = allocated_blocks s' - set bs"
    by blast
  with d t ab show ?case by auto
qed

lemma dvd_less_step:
  assumes "0 < (m::int)" "m dvd x" "m dvd y" "x < y + m"
  shows "x \<le> y"
proof (rule ccontr)
  assume "\<not> x \<le> y"
  then have "0 < x - y" by simp
  moreover have "m dvd x - y" using assms(2,3) by simp
  ultimately have "m \<le> x - y" by (rule zdvd_imp_le[rotated])
  with assms(4) show False by simp
qed

lemma pow2_less_dvd:
  assumes "(a::int) = 2 ^ i" "b = 2 ^ j" "a < b"
  shows "2 * a dvd b"
proof -
  from assms have "i < j" by (simp add: power_strict_increasing_iff)
  then have "Suc i \<le> j" by simp
  then have "(2::int) ^ Suc i dvd 2 ^ j" by (rule le_imp_power_dvd)
  with assms show ?thesis by simp
qed

lemma no_small_free_block:
  assumes wf: "well_formed s" and co: "coalesced s" and ae: "allocated_blocks s = {}"
    and tm: "total_memory s = 2 ^ N" and bf: "b \<in> free_blocks s"
  shows "2 ^ N \<le> snd b - fst b"
proof (rule ccontr)
  let ?T = "(2::int) ^ N"
  let ?P = "\<lambda>b. b \<in> free_blocks s \<and> snd b - fst b < ?T"
  assume "\<not> ?T \<le> snd b - fst b"
  with bf have "?P b" by simp
  from ex_has_least_nat[of ?P b "\<lambda>b. nat (snd b - fst b)", OF this] obtain blk where
    blk: "blk \<in> free_blocks s" "snd blk - fst blk < ?T"
    and least: "\<And>y. ?P y \<Longrightarrow> nat (snd blk - fst blk) \<le> nat (snd y - fst y)"
    by blast
  let ?a = "fst blk" and ?sz = "snd blk - fst blk"
  have inB: "blk \<in> free_blocks s \<union> allocated_blocks s" using blk(1) by simp
  note bb = wf_block_bounds[OF wf inB]
  from bb(4) obtain j where sj: "?sz = 2 ^ j" and dv: "?sz dvd ?a"
    and a0: "0 \<le> ?a" and aT: "?a + ?sz \<le> ?T"
    by (auto simp: aligned_def tm)
  have pos: "0 < ?sz" using bb(2) by simp
  have beq: "blk = (?a, ?a + ?sz)" by (simp add: prod_eq_iff)
  let ?bd = "buddy_of blk"
  from merged_shape[OF sj dv] beq obtain p where
    p2: "2 * ?sz dvd p"
    and sh: "(?a = p \<and> ?bd = (p + ?sz, p + 2 * ?sz)) \<or> (?a = p + ?sz \<and> ?bd = (p, p + ?sz))"
    by metis
  let ?a' = "fst ?bd"
  have bdeq: "?bd = (?a', ?a' + ?sz)" using sh by auto
  have pa: "p \<le> ?a" "?a < p + 2 * ?sz" "p \<le> ?a'" "?a' < p + 2 * ?sz" "?a - ?sz \<le> p"
    using sh pos by auto
  have T2: "2 * ?sz dvd ?T" by (rule pow2_less_dvd[OF sj refl blk(2)])
  have p0: "0 \<le> p"
    by (rule dvd_less_step[of "2 * ?sz"]) (use pos p2 pa(5) a0 in simp_all)
  have pT: "p + 2 * ?sz \<le> ?T"
    by (rule dvd_less_step[of "2 * ?sz"]) (use pos p2 T2 pa(1) aT in simp_all)
  have szp: "?sz dvd p" using p2 by (rule dvd_mult_right)
  have "?sz dvd p + ?sz" using szp by (rule dvd_add) simp
  moreover have "?a' = p \<or> ?a' = p + ?sz" using sh by auto
  ultimately have sza': "?sz dvd ?a'" using szp by metis
  have "0 \<le> ?a' \<and> ?a' < total_memory s" using pa p0 pT by (simp add: tm)
  with wf_partitions[OF wf] obtain c where
    c: "c \<in> free_blocks s \<union> allocated_blocks s" "covers c ?a'"
    unfolding partitions_def by blast
  then have cf: "c \<in> free_blocks s" by (simp add: ae)
  let ?c0 = "fst c" and ?k = "snd c - fst c"
  note cb = wf_block_bounds[OF wf c(1)]
  from cb(4) obtain j' where kj: "?k = 2 ^ j'" and kdv: "?k dvd ?c0" by (auto simp: aligned_def)
  have cov: "?c0 \<le> ?a'" "?a' < ?c0 + ?k" using c(2) by (simp_all add: covers_def)
  have le: "?sz \<le> ?k"
  proof (cases "?k < ?T")
    case True
    with cf least[of c] have "nat ?sz \<le> nat ?k" by simp
    with pos show ?thesis by simp
  next
    case False
    with blk(2) show ?thesis by simp
  qed
  show False
  proof (cases "?k = ?sz")
    case True
    have "?a' \<le> ?c0"
      by (rule dvd_less_step[of ?sz]) (use pos sza' kdv cov True in simp_all)
    with cov(1) have "?c0 = ?a'" by simp
    with True have "c = (?a', ?a' + ?sz)" by (simp add: prod_eq_iff)
    with bdeq cf have "?bd \<in> free_blocks s" by simp
    with blk(1) have "paired s blk" by (simp add: paired_def)
    with co show False unfolding coalesced_def by blast
  next
    case False
    with le have lt: "?sz < ?k" by simp
    have k2: "2 * ?sz dvd ?k" by (rule pow2_less_dvd[OF sj kj lt])
    then have c2: "2 * ?sz dvd ?c0" using kdv by (rule dvd_trans)
    have "?c0 \<le> p"
      by (rule dvd_less_step[of "2 * ?sz"]) (use pos c2 p2 cov(1) pa(4) in simp_all)
    moreover have "p + 2 * ?sz \<le> ?c0 + ?k"
    proof (rule dvd_less_step[of "2 * ?sz"])
      show "0 < 2 * ?sz" using pos by simp
      show "2 * ?sz dvd p + 2 * ?sz" using p2 by (rule dvd_add) simp
      show "2 * ?sz dvd ?c0 + ?k" using c2 k2 by (rule dvd_add)
      show "p + 2 * ?sz < ?c0 + ?k + 2 * ?sz" using cov(2) pa(3) by simp
    qed
    ultimately have "covers c ?a" using pa(1,2) by (simp add: covers_def)
    moreover have "covers blk ?a" using pos by (simp add: covers_def)
    ultimately have "c = blk" using wf_overlap_eq[OF wf c(1) inB] by blast
    with False show False by simp
  qed
qed

lemma restored:
  assumes wf: "well_formed s" and co: "coalesced s" and ae: "allocated_blocks s = {}"
    and tm: "total_memory s = 2 ^ N"
  shows "allocated s = Map.empty"
    and "free_list (memory s) k = (if k = 2 ^ N then [(0, 2 ^ N)] else [])"
proof -
  let ?T = "(2::int) ^ N"
  show "allocated s = Map.empty"
  proof (rule ext, rule ccontr)
    fix a assume "allocated s a \<noteq> None"
    then obtain r sz where "allocated s a = Some (r, sz)" by auto
    then have "(a, a + sz) \<in> allocated_blocks s" by (simp add: mem_allocated_blocks)
    with ae show False by simp
  qed
  have only: "b = (0, ?T)" if "b \<in> free_blocks s" for b
  proof -
    from that have "b \<in> free_blocks s \<union> allocated_blocks s" by simp
    from wf_block_bounds(1,3)[OF wf this] no_small_free_block[OF wf co ae tm that]
    show ?thesis by (simp add: prod_eq_iff tm)
  qed
  have "0 \<le> (0::int) \<and> 0 < total_memory s" by (simp add: tm)
  with wf_partitions[OF wf] obtain c where "c \<in> free_blocks s \<union> allocated_blocks s"
    unfolding partitions_def by blast
  with ae only have top: "(0, ?T) \<in> free_blocks s" by auto
  then have inT: "(0, ?T) \<in> set (free_list (memory s) ?T)"
    using wf_free_class[OF wf, of "(0, ?T)"] by simp
  have sub: "set (free_list (memory s) k') \<subseteq> {(0, ?T)}" for k'
    using only by (auto simp: mem_free_blocks)
  show "free_list (memory s) k = (if k = ?T then [(0, ?T)] else [])"
  proof (cases "k = ?T")
    case True
    have "set (free_list (memory s) ?T) = {(0, ?T)}" using sub[of ?T] inT by auto
    moreover have "distinct (free_list (memory s) ?T)" by (rule wf_distinct[OF wf])
    ultimately have "free_list (memory s) ?T = [(0, ?T)]"
      by (metis distinct.simps(2) distinct_singleton empty_set list.simps(15) set_empty
          card_distinct distinct_card length_0_conv length_Suc_conv card.empty card_insert_if
          finite.emptyI insert_absorb insert_not_empty singletonD list.set_intros(1))
    with True show ?thesis by simp
  next
    case False
    have "free_list (memory s) k = []"
    proof (rule ccontr)
      assume "free_list (memory s) k \<noteq> []"
      then obtain x where x: "x \<in> set (free_list (memory s) k)"
        by (cases "free_list (memory s) k") auto
      with sub[of k] have "x = (0, ?T)" by auto
      with wf_sized[OF wf x] False show False by simp
    qed
    with False show ?thesis by simp
  qed
qed

section \<open>Full coalescing\<close>

text \<open>
  C5, as the code has it. When all the requests of a list were granted on the allocator of a
  capacity \<open>2 ^ N\<close> and all the granted blocks are released in any order, every release
  returns, nothing is allocated any more, the free list of the capacity is the one block
  \<open>(0, 2 ^ N)\<close> and every other free list is empty or absent.
\<close>

theorem full_coalescing:
  "allocate_all ns (BuddySystem (2 ^ N)) = Some (map Some blks, s1) \<Longrightarrow> mset order = mset blks \<Longrightarrow>
   \<exists>es s2. deallocate_all order s1 = Some (es, s2) \<and> allocated s2 = Map.empty \<and>
     total_memory s2 = 2 ^ N \<and>
     (\<forall>k. free_list (memory s2) k = (if k = 2 ^ N then [(0, 2 ^ N)] else []))"
proof -
  assume a: "allocate_all ns (BuddySystem (2 ^ N)) = Some (map Some blks, s1)"
    and p: "mset order = mset blks"
  have e: "allocated_blocks (BuddySystem (2 ^ N)) = {}"
    by (simp add: allocated_blocks_def BuddySystem_def)
  from allocate_all_invariant[OF well_formed_BuddySystem coalesced_BuddySystem a] e
  have s1: "well_formed s1" "coalesced s1" "total_memory s1 = 2 ^ N"
    "allocated_blocks s1 = set blks" "distinct blks"
    by (simp_all add: BuddySystem_def)
  from p have so: "set order = set blks" by (rule mset_eq_setD)
  from p s1(5) have d: "distinct order" by (metis distinct_count_atmost_1 set_mset_mset)
  from so s1(4) have sub: "set order \<subseteq> allocated_blocks s1" by simp
  from deallocate_all_invariant[OF s1(1,2) d sub] obtain es s2 where
    s2: "deallocate_all order s1 = Some (es, s2)" "well_formed s2" "coalesced s2"
    "total_memory s2 = total_memory s1" "allocated_blocks s2 = allocated_blocks s1 - set order"
    by blast
  from s2(5) so s1(4) have ae: "allocated_blocks s2 = {}" by simp
  from s2(4) s1(3) have tm: "total_memory s2 = 2 ^ N" by simp
  from restored[OF s2(2,3) ae tm] s2(1) tm show ?thesis by blast
qed

theorem full_coalescing_witness:
  "deallocate_all [(2, 4), (0, 1)]
     \<lparr>total_memory = 4, memory = [4 \<mapsto> [], 2 \<mapsto> [], 1 \<mapsto> [(1, 2)]],
       allocated = [0 \<mapsto> (1, 1), 2 \<mapsto> (2, 2)]\<rparr> =
   Some ([None, None],
     \<lparr>total_memory = 4, memory = [4 \<mapsto> [(0, 4)], 2 \<mapsto> [], 1 \<mapsto> []], allocated = Map.empty\<rparr>)"
proof -
  let ?s1 = "\<lparr>total_memory = 4, memory = [4 \<mapsto> [], 2 \<mapsto> [], 1 \<mapsto> [(1, 2)]],
       allocated = [0 \<mapsto> (1, 1), 2 \<mapsto> (2, 2)]\<rparr>"
  have a: "allocate_all [1, 2] (BuddySystem (2 ^ 2)) = Some (map Some [(0, 1), (2, 4)], ?s1)"
    by (simp add: allocate_def find_nearest_power_of_two_def power_loop.simps allocate_loop.simps
      split_block_def split_loop.simps BuddySystem_def setdefault_append_def free_list_def fun_eq_iff)
  have p: "mset [(2::int, 4::int), (0, 1)] = mset [(0, 1), (2, 4)]" by simp
  from full_coalescing[OF a p] obtain es s2 where
    "deallocate_all [(2, 4), (0, 1)] ?s1 = Some (es, s2)" by blast
  moreover have "deallocate_all [(2, 4), (0, 1)] ?s1 = Some ([None, None],
     \<lparr>total_memory = 4, memory = [4 \<mapsto> [(0, 4)], 2 \<mapsto> [], 1 \<mapsto> []], allocated = Map.empty\<rparr>)"
    by (simp add: deallocate_def merge_buddies.simps setdefault_append_def free_list_def
        Let_def fun_eq_iff)
  ultimately show ?thesis by simp
qed

text \<open>
  C5 as stated fails in the letter: the dictionary keeps the keys of the sizes that were
  used, with empty lists. After one request of size 1 at capacity 2 and its release, the
  dictionary is \<^verbatim>\<open>{2: [(0, 2)], 1: []}\<close>, not \<^verbatim>\<open>{2: [(0, 2)]}\<close>.
\<close>

theorem full_coalescing_counterexample:
  "allocate_all [1] (BuddySystem 2) =
     Some ([Some (0, 1)], \<lparr>total_memory = 2, memory = [2 \<mapsto> [], 1 \<mapsto> [(1, 2)]],
                           allocated = [0 \<mapsto> (1, 1)]\<rparr>) \<and>
   deallocate_all [(0, 1)] \<lparr>total_memory = 2, memory = [2 \<mapsto> [], 1 \<mapsto> [(1, 2)]],
                           allocated = [0 \<mapsto> (1, 1)]\<rparr> =
     Some ([None], \<lparr>total_memory = 2, memory = [2 \<mapsto> [(0, 2)], 1 \<mapsto> []], allocated = Map.empty\<rparr>) \<and>
   ([2 \<mapsto> [(0, 2)], 1 \<mapsto> []] :: int \<rightharpoonup> block list) \<noteq> [2 \<mapsto> [(0, 2)]]"
proof -
  have "([2 \<mapsto> [(0, 2)], 1 \<mapsto> []] :: int \<rightharpoonup> block list) 1 \<noteq> [2 \<mapsto> [(0, 2)]] 1" by simp
  then have "([2 \<mapsto> [(0, 2)], 1 \<mapsto> []] :: int \<rightharpoonup> block list) \<noteq> [2 \<mapsto> [(0, 2)]]" by metis
  then show ?thesis
    by (simp add: allocate_def find_nearest_power_of_two_def power_loop.simps allocate_loop.simps
      split_block_def split_loop.simps BuddySystem_def deallocate_def merge_buddies.simps
      setdefault_append_def free_list_def Let_def fun_eq_iff)
qed

theorem partition_invariant_witness:
  "run [EnsureMemoryKeys, Allocate 1, Allocate 2, Deallocate 0] (BuddySystem (2 ^ 2)) =
     Some \<lparr>total_memory = 4, memory = [4 \<mapsto> [], 2 \<mapsto> [(0, 2)], 1 \<mapsto> []],
           allocated = [2 \<mapsto> (2, 2)]\<rparr> \<and>
   (\<Union>b \<in> free_blocks \<lparr>total_memory = 4, memory = [4 \<mapsto> [], 2 \<mapsto> [(0, 2)], 1 \<mapsto> []],
           allocated = [2 \<mapsto> (2, 2)]\<rparr> \<union>
        allocated_blocks \<lparr>total_memory = 4, memory = [4 \<mapsto> [], 2 \<mapsto> [(0, 2)], 1 \<mapsto> []],
           allocated = [2 \<mapsto> (2, 2)]\<rparr>. {fst b..<snd b}) = {0..<2 ^ 2} \<and>
   free_blocks \<lparr>total_memory = 4, memory = [4 \<mapsto> [], 2 \<mapsto> [(0, 2)], 1 \<mapsto> []],
           allocated = [2 \<mapsto> (2, 2)]\<rparr> \<inter>
     allocated_blocks \<lparr>total_memory = 4, memory = [4 \<mapsto> [], 2 \<mapsto> [(0, 2)], 1 \<mapsto> []],
           allocated = [2 \<mapsto> (2, 2)]\<rparr> = {}"
  using partition_invariant[of "[EnsureMemoryKeys, Allocate 1, Allocate 2, Deallocate 0]" 2] run_example by auto

theorem alignment_invariant_witness:
  "run [EnsureMemoryKeys, Allocate 1, Allocate 2, Deallocate 0] (BuddySystem (2 ^ 2)) =
     Some \<lparr>total_memory = 4, memory = [4 \<mapsto> [], 2 \<mapsto> [(0, 2)], 1 \<mapsto> []],
           allocated = [2 \<mapsto> (2, 2)]\<rparr> \<and>
   (\<exists>j. (2::int) = 2 ^ j) \<and> (2::int) mod 2 = 0 \<and>
   (\<exists>s'. allocate 1 \<lparr>total_memory = 4, memory = [4 \<mapsto> [], 2 \<mapsto> [(0, 2)], 1 \<mapsto> []],
           allocated = [2 \<mapsto> (2, 2)]\<rparr> = Some (Some (0, 1), s') \<and> allocated s' 0 = Some (1, 1))"
proof -
  let ?s = "\<lparr>total_memory = 4, memory = [4 \<mapsto> [], 2 \<mapsto> [(0, 2)], 1 \<mapsto> []],
           allocated = [2 \<mapsto> (2::int, 2::int)]\<rparr>"
  from alignment_invariant[of "[EnsureMemoryKeys, Allocate 1, Allocate 2, Deallocate 0]" 2] run_example
  have al: "\<forall>a r sz. allocated ?s a = Some (r, sz) \<longrightarrow> (\<exists>j. sz = 2 ^ j) \<and> a mod sz = 0"
    and an: "\<forall>n. \<exists>r s'. allocate n ?s = Some (r, s') \<and>
        (\<forall>blk. r = Some blk \<longrightarrow>
           (\<exists>p. find_nearest_power_of_two n = Some p \<and> allocated s' (fst blk) = Some (n, p) \<and>
                snd blk - fst blk = p \<and> fst blk mod p = 0))"
    by auto
  have "allocated ?s 2 = Some (2, 2)" by simp
  with al have 1: "(\<exists>j. (2::int) = 2 ^ j) \<and> (2::int) mod 2 = 0" by blast
  from an obtain r s' where r: "allocate 1 ?s = Some (r, s')"
    and c: "\<forall>blk. r = Some blk \<longrightarrow>
           (\<exists>p. find_nearest_power_of_two 1 = Some p \<and> allocated s' (fst blk) = Some (1, p) \<and>
                snd blk - fst blk = p \<and> fst blk mod p = 0)" by blast
  have "map_option fst (allocate 1 ?s) = Some (Some (0, 1))"
    by (simp add: allocate_def find_nearest_power_of_two_def power_loop.simps allocate_loop.simps
      split_block_def split_loop.simps setdefault_append_def free_list_def)
  with r have rr: "r = Some (0, 1)" by simp
  have "find_nearest_power_of_two 1 = Some 1"
    by (simp add: find_nearest_power_of_two_def power_loop.simps)
  with c rr have "allocated s' 0 = Some (1, 1)" by auto
  with r rr 1 run_example show ?thesis by auto
qed

end
